theory Spec2Isabelle
  imports Complex_Main "HOL-Library.Word" "HOL-Library.Multiset"
begin


section \<open>Sort controller (Arduino.ino)\<close>

text \<open>
  The sketch keeps its voting data in global variables. They are collected in one record,
  together with the state of the machine and a log of the commands sent to the hardware
  (display, the two servos, the serial link to the vision controller), so that every
  function of the sketch becomes a function from globals to globals.

  \<^item> \<open>uint8_t\<close> is \<open>8 word\<close>, \<open>uint16_t\<close> is \<open>16 word\<close>, \<open>unsigned long\<close> (32 bits on
    the AVR) is \<open>32 word\<close>; \<open>++\<close> and \<open>+\<close> wrap.
  \<^item> \<open>float\<close> values are modelled by the real numbers they denote, so sums are exact
    where the code rounds them; on the AVR \<open>double\<close> is the same 32-bit type, so the
    literals \<open>0.65\<close> and \<open>0.01\<close> are compared as \<open>float\<close>s. A NaN never reaches the
    tally, since \<open>parseResponse\<close> accepts a confidence only when it is at least
    \<open>MIN_CONFIDENCE\<close>.
  \<^item> Debug output on \<open>Serial\<close> and the calls of \<open>delay\<close> have no effect on the globals
    and are left out.
\<close>

subsection \<open>Constants\<close>

definition S1_HOME :: int where "S1_HOME = 0"
definition S1_REPOSITION1 :: int where "S1_REPOSITION1 = 45"
definition S1_REPOSITION2 :: int where "S1_REPOSITION2 = 90"
definition S1_MID :: int where "S1_MID = 90"
definition S1_FAR :: int where "S1_FAR = 180"
definition S2_HOME :: int where "S2_HOME = 90"
definition S2_RIGHT :: int where "S2_RIGHT = 20"
definition S2_LEFT :: int where "S2_LEFT = 160"

definition TIMEOUT_MS :: "32 word" where "TIMEOUT_MS = 2500"
definition DISTANCE_MIN :: "16 word" where "DISTANCE_MIN = 3"
definition DISTANCE_MAX :: "16 word" where "DISTANCE_MAX = 33"
definition MAX_VOTES :: "8 word" where "MAX_VOTES = 3"
definition MAJORITY_VOTES :: "8 word" where "MAJORITY_VOTES = 2"
definition MIN_CONFIDENCE :: real where "MIN_CONFIDENCE = 65 / 100"
definition MAX_REPOSITIONS :: "8 word" where "MAX_REPOSITIONS = 2"

subsection \<open>Globals and hardware commands\<close>

datatype SystemState =
  STATE_IDLE | STATE_DETECT | STATE_REQUEST | STATE_WAIT
  | STATE_REPOSITION | STATE_DECIDE | STATE_SORT | STATE_ERROR

datatype hw_command =
  Lcd string string    \<comment> \<open>\<open>updateDisplay(line1, line2)\<close>\<close>
  | Servo1 int         \<comment> \<open>\<open>servo1.write(angle)\<close>\<close>
  | Servo2 int         \<comment> \<open>\<open>servo2.write(angle)\<close>\<close>
  | EspPrintln string  \<comment> \<open>\<open>espSerial.println(text)\<close>\<close>

record sorter =
  state :: SystemState
  votesCan :: "8 word"
  votesGlass :: "8 word"
  votesBottle :: "8 word"
  confCan :: real
  confGlass :: real
  confBottle :: real
  deadline :: "32 word"
  repositionAttempts :: "8 word"
  consecutiveNones :: "8 word"
  hw :: "hw_command list"

text \<open>The values the globals are initialised with.\<close>

definition power_on :: sorter where
  "power_on = \<lparr> state = STATE_IDLE, votesCan = 0, votesGlass = 0, votesBottle = 0,
     confCan = 0, confGlass = 0, confBottle = 0, deadline = 0,
     repositionAttempts = 0, consecutiveNones = 0, hw = [] \<rparr>"

text \<open>
  What one call of \<open>runStateMachine\<close> reads from the outside: the value of \<open>millis()\<close>,
  the two results of \<open>measureDistance()\<close> that \<open>isObjectPresent\<close> takes, and the serial
  link: \<open>None\<close> when \<open>espSerial.available()\<close> is zero, otherwise the bytes that arrive
  while the read loop runs.
\<close>

record env =
  millis :: "32 word"
  d1 :: "16 word"
  d2 :: "16 word"
  rx :: "string option"

subsection \<open>Sensor, servos, display\<close>

definition isObjectPresent :: "env \<Rightarrow> bool" where
  "isObjectPresent e =
     (let inRange1 = (DISTANCE_MIN \<le> d1 e \<and> d1 e \<le> DISTANCE_MAX);
          inRange2 = (DISTANCE_MIN \<le> d2 e \<and> d2 e \<le> DISTANCE_MAX)
      in inRange1 \<and> inRange2)"

definition emit :: "hw_command list \<Rightarrow> sorter \<Rightarrow> sorter" where
  "emit cs s = s\<lparr> hw := hw s @ cs \<rparr>"

definition moveServo1 :: "int \<Rightarrow> hw_command list" where
  "moveServo1 angle = [Servo1 angle]"

definition moveServo2 :: "int \<Rightarrow> hw_command list" where
  "moveServo2 angle = [Servo2 angle]"

definition performDrop :: "bool \<Rightarrow> hw_command list" where
  "performDrop isRight =
     (if isRight then moveServo2 S2_RIGHT @ moveServo2 S2_HOME
      else moveServo2 S2_LEFT @ moveServo2 S2_HOME)"

definition sortToBin :: "8 word \<Rightarrow> hw_command list" where
  "sortToBin bin =
     moveServo1 S1_HOME @
     (if bin = 1 then moveServo1 S1_HOME @ performDrop True @ moveServo1 S1_HOME
      else if bin = 2 then moveServo1 S1_MID @ performDrop True @ moveServo1 S1_HOME
      else if bin = 3 then moveServo1 S1_FAR @ performDrop True @ moveServo1 S1_HOME
      else moveServo1 S1_MID @ performDrop False @ moveServo1 S1_HOME)"

definition updateDisplay :: "string \<Rightarrow> string \<Rightarrow> hw_command list" where
  "updateDisplay line1 line2 = [Lcd line1 line2]"

text \<open>\<open>%d\<close> of a \<open>uint8_t\<close>: one to three decimal digits.\<close>

definition digit :: "nat \<Rightarrow> char" where
  "digit n = ''0123456789'' ! (n mod 10)"

definition fmt_d :: "8 word \<Rightarrow> string" where
  "fmt_d w =
     (let n = unat w in
      if n < 10 then [digit n]
      else if n < 100 then [digit (n div 10), digit n]
      else [digit (n div 100), digit (n div 10), digit n])"

text \<open>\<open>snprintf(buffer, 17, ...)\<close> keeps at most 16 characters.\<close>

definition snprintf17 :: "string \<Rightarrow> string" where
  "snprintf17 text = take 16 text"

subsection \<open>Voting\<close>

definition resetVotes :: "sorter \<Rightarrow> sorter" where
  "resetVotes s = s\<lparr> votesCan := 0, votesGlass := 0, votesBottle := 0,
     confCan := 0, confGlass := 0, confBottle := 0,
     repositionAttempts := 0, consecutiveNones := 0 \<rparr>"

definition recordVote :: "string \<Rightarrow> real \<Rightarrow> sorter \<Rightarrow> sorter" where
  "recordVote className confidence s =
     (let s1 =
        (if className = ''CAN3'' then
           s\<lparr> votesCan := votesCan s + 1, confCan := confCan s + confidence \<rparr>
         else if className = ''GLASS3'' then
           s\<lparr> votesGlass := votesGlass s + 1, confGlass := confGlass s + confidence \<rparr>
         else if className = ''BOTTLE3'' then
           s\<lparr> votesBottle := votesBottle s + 1, confBottle := confBottle s + confidence \<rparr>
         else s)
      in s1\<lparr> consecutiveNones := 0 \<rparr>)"

definition getTotalVotes :: "sorter \<Rightarrow> 8 word" where
  "getTotalVotes s = votesCan s + votesGlass s + votesBottle s"

definition hasMajority :: "sorter \<Rightarrow> bool" where
  "hasMajority s =
     (MAJORITY_VOTES \<le> votesCan s \<or> MAJORITY_VOTES \<le> votesGlass s
      \<or> MAJORITY_VOTES \<le> votesBottle s)"

definition calculateBin :: "sorter \<Rightarrow> 8 word" where
  "calculateBin s =
     (if MAJORITY_VOTES \<le> votesCan s then 1
      else if MAJORITY_VOTES \<le> votesGlass s then 2
      else if MAJORITY_VOTES \<le> votesBottle s then 3
      else if getTotalVotes s = 0 then 4
      else
        let maxConf = confCan s; bin = (1 :: 8 word);
            (maxConf, bin) = (if confGlass s > maxConf then (confGlass s, 2) else (maxConf, bin));
            (maxConf, bin) = (if confBottle s > maxConf then (confBottle s, 3) else (maxConf, bin))
        in if maxConf < 1 / 100 then 4 else bin)"

definition showVotes :: "sorter \<Rightarrow> hw_command list" where
  "showVotes s =
     updateDisplay ''Voting...''
       (snprintf17 (''C:'' @ fmt_d (votesCan s) @ '' G:'' @ fmt_d (votesGlass s)
                    @ '' B:'' @ fmt_d (votesBottle s)))"

subsection \<open>Link to the vision controller\<close>

text \<open>
  A character buffer is modelled by its content, the characters before the terminating
  NUL. \<open>strncmp(a, b, n) == 0\<close> compares the first \<open>n\<close> characters, \<open>strstr\<close> and
  \<open>strchr\<close> return the rest of the buffer from the first match on, or \<open>None\<close> for the
  null pointer.
\<close>

definition strncmp_eq :: "string \<Rightarrow> string \<Rightarrow> nat \<Rightarrow> bool" where
  "strncmp_eq a b n = (take n a = take n b)"

fun strstr :: "string \<Rightarrow> string \<Rightarrow> string option" where
  "strstr [] needle = (if needle = [] then Some [] else None)"
| "strstr (c # cs) needle =
     (if take (length needle) (c # cs) = needle then Some (c # cs) else strstr cs needle)"

fun strchr :: "string \<Rightarrow> char \<Rightarrow> string option" where
  "strchr [] c = None"
| "strchr (d # ds) c = (if d = c then Some (d # ds) else strchr ds c)"

definition requestInference :: "env \<Rightarrow> sorter \<Rightarrow> sorter" where
  "requestInference e s =
     (emit [EspPrintln ''INFER''] s)\<lparr> deadline := millis e + TIMEOUT_MS \<rparr>"

text \<open>
  \<open>atof\<close> belongs to the C library, not to the sketch: it is a parameter. The result is
  the returned \<open>bool\<close> with the contents of \<open>outClass\<close> and \<open>*outConf\<close> on return; the two
  are passed in because the early returns leave them as they were.
\<close>

definition parseResponse ::
  "(string \<Rightarrow> real) \<Rightarrow> string \<Rightarrow> string \<Rightarrow> real \<Rightarrow> bool \<times> string \<times> real" where
  "parseResponse atof buffer outClass outConf =
     (if buffer = [] then (False, outClass, outConf)
      else if strncmp_eq buffer ''NONE'' 4 then (False, outClass, outConf)
      else if strncmp_eq buffer ''ERR:'' 4 then (False, outClass, outConf)
      else case strstr buffer ''OK'' of
        None \<Rightarrow> (False, outClass, outConf)
      | Some okPtr \<Rightarrow>
          (case strchr (drop 2 okPtr) (CHR '':'') of
             None \<Rightarrow> (False, outClass, outConf)
           | Some colonPtr \<Rightarrow>
               let classPtr = drop 1 colonPtr in
               (case strchr classPtr (CHR '':'') of
                  None \<Rightarrow> (False, outClass, outConf)
                | Some secondColonPtr \<Rightarrow>
                    let classLen = length classPtr - length secondColonPtr;
                        classLen = (if classLen > 15 then 15 else classLen);
                        outClass = take classLen classPtr;
                        outConf = atof (drop 1 secondColonPtr)
                    in (outConf \<ge> MIN_CONFIDENCE, outClass, outConf))))"

subsection \<open>The state machine\<close>

text \<open>
  The read loop of \<open>STATE_WAIT\<close>: it stops at a line end, drops every character that is
  not a digit, a letter, a colon or a dot, and stores at most 31 characters. The loop
  also stops when its time window ends; the bytes in \<open>rx\<close> are those it has read by then.
\<close>

definition safe_char :: "char \<Rightarrow> bool" where
  "safe_char c =
     (let n = (of_char c :: nat) in
      (48 \<le> n \<and> n \<le> 57) \<or> (65 \<le> n \<and> n \<le> 90) \<or> (97 \<le> n \<and> n \<le> 122)
      \<or> c = CHR '':'' \<or> c = CHR ''.'')"

fun read_loop :: "string \<Rightarrow> string \<Rightarrow> string" where
  "read_loop buffer [] = buffer"
| "read_loop buffer (c # cs) =
     (if c = CHR 0x0A \<or> c = CHR 0x0D then buffer
      else if safe_char c then
        read_loop (if length buffer < 31 then buffer @ [c] else buffer) cs
      else read_loop buffer cs)"

text \<open>The six assignments that appear in \<open>STATE_WAIT\<close> (twice) and in \<open>STATE_ERROR\<close>.\<close>

definition zero_votes :: "sorter \<Rightarrow> sorter" where
  "zero_votes s = s\<lparr> votesCan := 0, votesGlass := 0, votesBottle := 0,
     confCan := 0, confGlass := 0, confBottle := 0 \<rparr>"

definition give_up :: "sorter \<Rightarrow> sorter" where
  "give_up s =
     (emit (updateDisplay (''Can'' @ [CHR 0x27] @ ''t detect'') ''-> Bin 4'') (zero_votes s))
       \<lparr> state := STATE_DECIDE \<rparr>"

definition no_detection :: "env \<Rightarrow> sorter \<Rightarrow> sorter" where
  "no_detection e s0 =
     (let s = s0\<lparr> consecutiveNones := consecutiveNones s0 + 1 \<rparr> in
      if repositionAttempts s > 0 then
        (if repositionAttempts s < MAX_REPOSITIONS then s\<lparr> state := STATE_REPOSITION \<rparr>
         else give_up s)
      else if isObjectPresent e then
        (if repositionAttempts s < MAX_REPOSITIONS then s\<lparr> state := STATE_REPOSITION \<rparr>
         else give_up s)
      else s\<lparr> state := STATE_IDLE \<rparr>)"

definition detection_success :: "string \<Rightarrow> real \<Rightarrow> sorter \<Rightarrow> sorter" where
  "detection_success className confidence s0 =
     (let s = recordVote className confidence s0;
          s = emit (showVotes s) s
      in if hasMajority s \<or> MAX_VOTES \<le> getTotalVotes s then s\<lparr> state := STATE_DECIDE \<rparr>
         else s\<lparr> state := STATE_REQUEST \<rparr>)"

definition bin_name :: "8 word \<Rightarrow> string" where
  "bin_name bin =
     (if bin = 1 then ''CAN'' else if bin = 2 then ''GLASS''
      else if bin = 3 then ''BOTTLE'' else ''MIXED'')"

definition runStateMachine :: "(string \<Rightarrow> real) \<Rightarrow> env \<Rightarrow> sorter \<Rightarrow> sorter" where
  "runStateMachine atof e s =
     (case state s of
        STATE_IDLE \<Rightarrow>
          (let s = emit (updateDisplay ''Ready'' []) s in
           if isObjectPresent e then s\<lparr> state := STATE_DETECT \<rparr> else s)
      | STATE_DETECT \<Rightarrow>
          (let s = emit (updateDisplay ''Detecting'' ''Object present'') s in
           if isObjectPresent e then
             (emit (moveServo1 S1_HOME) (resetVotes s))\<lparr> state := STATE_REQUEST \<rparr>
           else s\<lparr> state := STATE_IDLE \<rparr>)
      | STATE_REQUEST \<Rightarrow>
          (let s = emit (updateDisplay ''Requesting'' ''Inference...'') s
           in (requestInference e s)\<lparr> state := STATE_WAIT \<rparr>)
      | STATE_WAIT \<Rightarrow>
          (if millis e > deadline s then s\<lparr> state := STATE_ERROR \<rparr>
           else case rx e of
             None \<Rightarrow> s
           | Some bytes \<Rightarrow>
               let buffer = read_loop [] bytes in
               if buffer = [] then s
               else
                 let (ok, className, confidence) = parseResponse atof buffer [] 0 in
                 if ok then detection_success className confidence s
                 else no_detection e s)
      | STATE_REPOSITION \<Rightarrow>
          (let s = s\<lparr> repositionAttempts := repositionAttempts s + 1 \<rparr>;
               line1 = snprintf17 (''Reposition #'' @ fmt_d (repositionAttempts s));
               s = emit (updateDisplay line1 ''Trying again...'') s;
               s = (if repositionAttempts s = 1 then emit (moveServo1 S1_REPOSITION1) s
                    else emit (moveServo1 S1_REPOSITION2) s)
           in s\<lparr> state := STATE_REQUEST \<rparr>)
      | STATE_DECIDE \<Rightarrow>
          (let bin = calculateBin s;
               line1 = snprintf17 (''Bin '' @ fmt_d bin);
               s = emit (updateDisplay line1 (bin_name bin)) s
           in s\<lparr> state := STATE_SORT \<rparr>)
      | STATE_SORT \<Rightarrow>
          (let bin = calculateBin s;
               s = emit (sortToBin bin) s
           in s\<lparr> state := STATE_IDLE \<rparr>)
      | STATE_ERROR \<Rightarrow>
          (let s = zero_votes s;
               s = emit (updateDisplay ''Error/Timeout'' ''-> Bin 4'') s;
               s = emit (moveServo1 S1_HOME) s;
               s = emit (sortToBin 4) s
           in s\<lparr> state := STATE_IDLE \<rparr>))"

text \<open>The main loop calls \<open>runStateMachine\<close> again and again: one list element per call.\<close>

fun run :: "(string \<Rightarrow> real) \<Rightarrow> env list \<Rightarrow> sorter \<Rightarrow> sorter" where
  "run atof [] s = s"
| "run atof (e # es) s = run atof es (runStateMachine atof e s)"

subsection \<open>Runs of the machine\<close>

text \<open>
  The states the machine can be in after power-on, whatever it reads from the sensor,
  the clock and the serial link.
\<close>

inductive reachable :: "(string \<Rightarrow> real) \<Rightarrow> sorter \<Rightarrow> bool" for atof where
  start: "reachable atof power_on"
| step: "reachable atof s \<Longrightarrow> reachable atof (runStateMachine atof e s)"

text \<open>
  The voting phase (request, wait, reposition), and the condition under which
  \<open>STATE_WAIT\<close> asks for another vote.
\<close>

definition no_quorum :: "sorter \<Rightarrow> bool" where
  "no_quorum s = (\<not> hasMajority s \<and> \<not> MAX_VOTES \<le> getTotalVotes s)"

definition voting :: "sorter \<Rightarrow> bool" where
  "voting s = (state s = STATE_REQUEST \<or> state s = STATE_WAIT \<or> state s = STATE_REPOSITION)"

text \<open>An object at 10 cm, nothing on the serial link, one second after power-on.\<close>

definition seen :: env where
  "seen = \<lparr> millis = 1000, d1 = 10, d2 = 11, rx = None \<rparr>"

text \<open>
  A call processes a reply when the machine waits, the deadline has not passed and the
  read loop returns a line that is not empty (an empty line is ignored and the machine
  keeps waiting).
\<close>

definition is_reply :: "env \<Rightarrow> sorter \<Rightarrow> bool" where
  "is_reply e s =
     (state s = STATE_WAIT \<and> \<not> millis e > deadline s
      \<and> (case rx e of None \<Rightarrow> False | Some bytes \<Rightarrow> read_loop [] bytes \<noteq> []))"

text \<open>
  Running the machine until \<open>STATE_DECIDE\<close>, counting the requests sent (calls in
  \<open>STATE_REQUEST\<close>) and the replies processed on the way.
\<close>

fun until_decide ::
  "(string \<Rightarrow> real) \<Rightarrow> env list \<Rightarrow> sorter \<Rightarrow> nat \<Rightarrow> nat \<Rightarrow> sorter \<times> nat \<times> nat" where
  "until_decide atof [] s requests replies = (s, requests, replies)"
| "until_decide atof (e # es) s requests replies =
     (if state s = STATE_DECIDE then (s, requests, replies)
      else until_decide atof es (runStateMachine atof e s)
             (if state s = STATE_REQUEST then requests + 1 else requests)
             (if is_reply e s then replies + 1 else replies))"

text \<open>
  A run in which the object stays present, no deadline passes and \<open>parseResponse\<close>
  accepts no line that arrives.
\<close>

fun only_non_detections :: "(string \<Rightarrow> real) \<Rightarrow> env list \<Rightarrow> sorter \<Rightarrow> bool" where
  "only_non_detections atof [] s = True"
| "only_non_detections atof (e # es) s =
     (isObjectPresent e
      \<and> \<not> (state s = STATE_WAIT \<and> millis e > deadline s)
      \<and> (case rx e of None \<Rightarrow> True
          | Some bytes \<Rightarrow> \<not> fst (parseResponse atof (read_loop [] bytes) [] 0))
      \<and> only_non_detections atof es (runStateMachine atof e s))"

text \<open>
  How the state, the counter \<open>repositionAttempts\<close>, the requests sent and the replies
  processed hang together in such a run.
\<close>

definition repositioning :: "sorter \<Rightarrow> nat \<Rightarrow> nat \<Rightarrow> bool" where
  "repositioning s requests replies =
     (case state s of
        STATE_REQUEST \<Rightarrow> requests = replies \<and> repositionAttempts s = of_nat replies \<and> replies \<le> 2
      | STATE_WAIT \<Rightarrow> requests = replies + 1 \<and> repositionAttempts s = of_nat replies \<and> replies \<le> 2
      | STATE_REPOSITION \<Rightarrow>
          requests = replies \<and> repositionAttempts s + 1 = of_nat replies
          \<and> 1 \<le> replies \<and> replies \<le> 2
      | STATE_DECIDE \<Rightarrow>
          requests = 3 \<and> replies = 3 \<and> repositionAttempts s = 2
          \<and> votesCan s = 0 \<and> votesGlass s = 0 \<and> votesBottle s = 0
          \<and> confCan s = 0 \<and> confGlass s = 0 \<and> confBottle s = 0
      | _ \<Rightarrow> False)"

text \<open>
  The reply \<open>NONE\<close> with its line end, two seconds after power-on; and a machine in
  \<open>STATE_DETECT\<close> with a vote left over from the previous object.
\<close>

definition none_reply :: env where
  "none_reply = \<lparr> millis = 2000, d1 = 10, d2 = 11, rx = Some (''NONE'' @ [CHR 0x0D, CHR 0x0A]) \<rparr>"

definition detecting :: sorter where
  "detecting = power_on\<lparr> state := STATE_DETECT, votesGlass := 1, confGlass := 9 / 10 \<rparr>"

text \<open>The budget of repositioning moves, and that a move is only begun within it.\<close>

definition within_budget :: "sorter \<Rightarrow> bool" where
  "within_budget s =
     (repositionAttempts s \<le> MAX_REPOSITIONS
      \<and> (state s = STATE_REPOSITION \<longrightarrow> repositionAttempts s < MAX_REPOSITIONS))"

text \<open>
  What the votes in the tally stand for: no confidence sum is negative, and a class with
  a vote count other than zero has a confidence sum of at least \<open>MIN_CONFIDENCE\<close>.
\<close>

definition vote_backed :: "sorter \<Rightarrow> bool" where
  "vote_backed s =
     (0 \<le> confCan s \<and> 0 \<le> confGlass s \<and> 0 \<le> confBottle s
      \<and> (votesCan s \<noteq> 0 \<longrightarrow> MIN_CONFIDENCE \<le> confCan s)
      \<and> (votesGlass s \<noteq> 0 \<longrightarrow> MIN_CONFIDENCE \<le> confGlass s)
      \<and> (votesBottle s \<noteq> 0 \<longrightarrow> MIN_CONFIDENCE \<le> confBottle s))"

text \<open>
  Two notions used to state what \<open>parseResponse\<close> does: a buffer that contains the marker
  \<open>OK\<close>, and the number of colons in a text.
\<close>

definition contains_OK :: "string \<Rightarrow> bool" where
  "contains_OK s = (\<exists>pre post. s = pre @ ''OK'' @ post)"

definition colons :: "string \<Rightarrow> nat" where
  "colons s = length (filter (\<lambda>c. c = CHR '':'') s)"

text \<open>An \<open>atof\<close> for the examples: it knows the text \<open>0.91\<close>.\<close>

definition atof_091 :: "string \<Rightarrow> real" where
  "atof_091 s = (if s = ''0.91'' then 91 / 100 else 0)"

text \<open>
  An \<open>atof\<close> that knows \<open>0.70\<close> and \<open>0.90\<close>, and a run from power-on in which the object is
  seen and two replies arrive: \<open>OK:CAN3:0.70\<close>, then \<open>OK:GLASS3:0.90\<close>.
\<close>

definition atof_votes :: "string \<Rightarrow> real" where
  "atof_votes s = (if s = ''0.70'' then 7 / 10 else if s = ''0.90'' then 9 / 10 else 0)"

definition two_votes :: "env list" where
  "two_votes =
     [seen, seen, seen, seen\<lparr> rx := Some (''OK:CAN3:0.70'' @ [CHR 0x0D, CHR 0x0A]) \<rparr>,
      seen, seen\<lparr> rx := Some (''OK:GLASS3:0.90'' @ [CHR 0x0D, CHR 0x0A]) \<rparr>]"

section \<open>Vision controller (ESPv3Code.ino): the detection filter\<close>

text \<open>
  A \<open>BoundingBox\<close> has four \<open>uint32_t\<close> coordinates, a \<open>float\<close> confidence, a label and
  the flag \<open>suppressed\<close>. The fields carry the prefix \<open>box_\<close> here. An array
  \<open>BoundingBox* boxes\<close> with its \<open>count\<close> is a list, \<open>count\<close> being its length (a
  \<open>uint32_t\<close>: lists are shorter than \<open>2^32\<close>).

  As in the sort controller, a \<open>float\<close> is modelled by the real number it denotes, so
  the quotients and the weighted sums below are exact where the code rounds them.
  \<open>EI_CLASSIFIER_INPUT_WIDTH\<close> and \<open>EI_CLASSIFIER_INPUT_HEIGHT\<close> come from the generated
  header of the model, which is not part of the sources: they are parameters.
\<close>

record BoundingBox =
  box_x :: "32 word"
  box_y :: "32 word"
  box_width :: "32 word"
  box_height :: "32 word"
  box_confidence :: real
  box_label :: string
  box_suppressed :: bool

definition NMS_IOU_THRESHOLD :: real where "NMS_IOU_THRESHOLD = 2 / 10"
definition MIN_BOX_SIZE :: "32 word" where "MIN_BOX_SIZE = 2"
definition SPATIAL_THRESHOLD :: real where "SPATIAL_THRESHOLD = 60"

text \<open>
  The vision controller defines its own \<open>MIN_CONFIDENCE\<close> as \<open>0.65f\<close>; it denotes the same
  number as the constant of the sort controller, which is used for both.
\<close>

definition area :: "BoundingBox \<Rightarrow> 32 word" where
  "area b = box_width b * box_height b"

definition centerX :: "BoundingBox \<Rightarrow> 32 word" where
  "centerX b = box_x b + box_width b div 2"

definition centerY :: "BoundingBox \<Rightarrow> 32 word" where
  "centerY b = box_y b + box_height b div 2"

definition isValid :: "BoundingBox \<Rightarrow> bool" where
  "isValid b =
     (MIN_BOX_SIZE \<le> box_width b \<and> MIN_BOX_SIZE \<le> box_height b
      \<and> MIN_CONFIDENCE \<le> box_confidence b)"

definition suppress :: "BoundingBox \<Rightarrow> BoundingBox" where
  "suppress b = b\<lparr> box_suppressed := True \<rparr>"

definition calculateIoU :: "BoundingBox \<Rightarrow> BoundingBox \<Rightarrow> real" where
  "calculateIoU a b =
     (let x1 = max (box_x a) (box_x b);
          y1 = max (box_y a) (box_y b);
          x2 = min (box_x a + box_width a) (box_x b + box_width b);
          y2 = min (box_y a + box_height a) (box_y b + box_height b)
      in if x1 \<ge> x2 \<or> y1 \<ge> y2 then 0
         else
           let intersection = (x2 - x1) * (y2 - y1);
               unionArea = area a + area b - intersection
           in if unionArea > 0 then real (unat intersection) / real (unat unionArea) else 0)"

text \<open>
  \<open>distance\<close> computes with \<open>int32_t\<close>. Signed overflow is undefined in C; the model
  computes in the integers, which is what the code does whenever the centres are less
  than \<open>2^15\<close> apart in each direction.
\<close>

definition distance :: "BoundingBox \<Rightarrow> BoundingBox \<Rightarrow> real" where
  "distance a b =
     (let dx = sint (centerX a) - sint (centerX b);
          dy = sint (centerY a) - sint (centerY b)
      in sqrt (real_of_int (dx * dx + dy * dy)))"

definition sameClass :: "BoundingBox \<Rightarrow> BoundingBox \<Rightarrow> bool" where
  "sameClass a b = (box_label a = box_label b)"

subsection \<open>Sorting\<close>

text \<open>
  The body of the inner loop of \<open>sortByConfidence\<close>, the inner loop for a given \<open>i\<close>, and
  the two loops together. The bounds are computed in \<open>uint32_t\<close>: for \<open>count = 0\<close> the
  bound \<open>count - 1\<close> is \<open>2^32 - 1\<close> and the loops read \<open>boxes[0]\<close>, \<open>boxes[1]\<close>, ... outside
  the array. That is the result \<open>None\<close>; \<open>runInference\<close> calls the filter for
  \<open>rawCount > 0\<close> only.
\<close>

definition swap_step :: "nat \<Rightarrow> BoundingBox list \<Rightarrow> BoundingBox list" where
  "swap_step j boxes =
     (if box_confidence (boxes ! j) < box_confidence (boxes ! (j + 1))
      then boxes[j := boxes ! (j + 1), j + 1 := boxes ! j]
      else boxes)"

definition bubble_pass :: "nat \<Rightarrow> BoundingBox list \<Rightarrow> BoundingBox list" where
  "bubble_pass i boxes = fold swap_step [0..<length boxes - i - 1] boxes"

definition sortByConfidence :: "BoundingBox list \<Rightarrow> BoundingBox list option" where
  "sortByConfidence boxes =
     (if boxes = [] then None
      else Some (fold bubble_pass [0..<length boxes - 1] boxes))"

subsection \<open>The four filters\<close>

definition overlapping :: "BoundingBox \<Rightarrow> BoundingBox \<Rightarrow> bool" where
  "overlapping a b =
     (let iou = calculateIoU a b; dist = distance a b
      in iou > NMS_IOU_THRESHOLD \<or> dist < SPATIAL_THRESHOLD)"

definition nms_inner :: "nat \<Rightarrow> nat \<Rightarrow> BoundingBox list \<Rightarrow> BoundingBox list" where
  "nms_inner i j boxes =
     (if box_suppressed (boxes ! j) then boxes
      else if \<not> sameClass (boxes ! i) (boxes ! j) then boxes
      else if overlapping (boxes ! i) (boxes ! j) then boxes[j := suppress (boxes ! j)]
      else boxes)"

definition nms_outer :: "nat \<Rightarrow> BoundingBox list \<Rightarrow> BoundingBox list" where
  "nms_outer i boxes =
     (if box_suppressed (boxes ! i) then boxes
      else fold (nms_inner i) [i + 1..<length boxes] boxes)"

definition applyNMS :: "BoundingBox list \<Rightarrow> BoundingBox list option" where
  "applyNMS boxes =
     (case sortByConfidence boxes of
        None \<Rightarrow> None
      | Some sorted_boxes \<Rightarrow> Some (fold nms_outer [0..<length sorted_boxes] sorted_boxes))"

text \<open>
  Each round of the loop of \<open>filterInvalid\<close> reads and writes \<open>boxes[i]\<close> only: the loop
  is a map of its body over the array.
\<close>

definition filter_step :: "32 word \<Rightarrow> 32 word \<Rightarrow> BoundingBox \<Rightarrow> BoundingBox" where
  "filter_step input_width input_height b =
     (if box_suppressed b then b
      else if \<not> isValid b then suppress b
      else if box_x b + box_width b > input_width \<or> box_y b + box_height b > input_height
        then suppress b
      else
        let aspectRatio = real (unat (box_width b)) / real (unat (box_height b))
        in if aspectRatio > 10 \<or> aspectRatio < 1 / 10 then suppress b else b)"

definition filterInvalid :: "32 word \<Rightarrow> 32 word \<Rightarrow> BoundingBox list \<Rightarrow> BoundingBox list" where
  "filterInvalid input_width input_height boxes =
     map (filter_step input_width input_height) boxes"

definition contained_in :: "BoundingBox \<Rightarrow> BoundingBox \<Rightarrow> bool" where
  "contained_in bj bi =
     (box_x bj \<ge> box_x bi \<and> box_y bj \<ge> box_y bi
      \<and> box_x bj + box_width bj \<le> box_x bi + box_width bi
      \<and> box_y bj + box_height bj \<le> box_y bi + box_height bi)"

definition rc_inner :: "nat \<Rightarrow> nat \<Rightarrow> BoundingBox list \<Rightarrow> BoundingBox list" where
  "rc_inner i j boxes =
     (if i = j \<or> box_suppressed (boxes ! j) then boxes
      else
        let contained = contained_in (boxes ! j) (boxes ! i)
        in if contained \<and> box_confidence (boxes ! i) > box_confidence (boxes ! j)
           then boxes[j := suppress (boxes ! j)]
           else boxes)"

definition rc_outer :: "nat \<Rightarrow> BoundingBox list \<Rightarrow> BoundingBox list" where
  "rc_outer i boxes =
     (if box_suppressed (boxes ! i) then boxes
      else fold (rc_inner i) [0..<length boxes] boxes)"

definition removeContained :: "BoundingBox list \<Rightarrow> BoundingBox list" where
  "removeContained boxes = fold rc_outer [0..<length boxes] boxes"

definition score :: "BoundingBox \<Rightarrow> real" where
  "score b = box_confidence b * (7 / 10) + (real (unat (area b)) / 1000) * (3 / 10)"

text \<open>
  The inner loop of \<open>keepBestPerClass\<close> has a \<open>break\<close>: the second component of the loop
  state says that the loop has been left.
\<close>

definition kb_inner :: "nat \<Rightarrow> nat \<Rightarrow> BoundingBox list \<times> bool \<Rightarrow> BoundingBox list \<times> bool" where
  "kb_inner i j st =
     (let (boxes, left) = st in
      if left then st
      else if box_suppressed (boxes ! j) then st
      else if \<not> sameClass (boxes ! i) (boxes ! j) then st
      else
        let scorei = score (boxes ! i); scorej = score (boxes ! j)
        in if scorei \<ge> scorej then (boxes[j := suppress (boxes ! j)], False)
           else (boxes[i := suppress (boxes ! i)], True))"

definition kb_outer :: "nat \<Rightarrow> BoundingBox list \<Rightarrow> BoundingBox list" where
  "kb_outer i boxes =
     (if box_suppressed (boxes ! i) then boxes
      else fst (fold (kb_inner i) [i + 1..<length boxes] (boxes, False)))"

definition keepBestPerClass :: "BoundingBox list \<Rightarrow> BoundingBox list" where
  "keepBestPerClass boxes = fold kb_outer [0..<length boxes] boxes"

subsection \<open>The filters in \<open>runInference\<close>\<close>

text \<open>
  \<open>runInference\<close> applies the four filters in this order when \<open>rawCount > 0\<close>, and then
  sends the first box that is not suppressed, or \<open>NONE\<close>.
\<close>

definition apply_filters ::
  "32 word \<Rightarrow> 32 word \<Rightarrow> BoundingBox list \<Rightarrow> BoundingBox list option" where
  "apply_filters input_width input_height boxes =
     (if length boxes > 0 then
        (let boxes = filterInvalid input_width input_height boxes;
             boxes = removeContained boxes
         in case applyNMS boxes of
              None \<Rightarrow> None
            | Some boxes \<Rightarrow> Some (keepBestPerClass boxes))
      else Some boxes)"

definition first_result :: "BoundingBox list \<Rightarrow> BoundingBox option" where
  "first_result boxes = find (\<lambda>b. \<not> box_suppressed b) boxes"

text \<open>
  The classifier returns \<open>ei_impulse_result_bounding_box_t\<close> values. \<open>runInference\<close>
  copies each into a \<open>BoundingBox\<close> (the label with \<open>strncpy\<close> into 32 bytes, so at most
  31 characters of it) and clears the flag. The reply is the line sent on \<open>Serial2\<close>:
  \<open>OK:label:confidence\<close> or \<open>NONE\<close>; printing the confidence with two decimals is not
  modelled, the reply carries the number.
\<close>

record ei_bounding_box =
  bb_label :: string
  bb_x :: "32 word"
  bb_y :: "32 word"
  bb_width :: "32 word"
  bb_height :: "32 word"
  bb_value :: real

definition from_raw :: "ei_bounding_box \<Rightarrow> BoundingBox" where
  "from_raw raw = \<lparr> box_x = bb_x raw, box_y = bb_y raw, box_width = bb_width raw,
     box_height = bb_height raw, box_confidence = bb_value raw,
     box_label = take 31 (bb_label raw), box_suppressed = False \<rparr>"

datatype reply = OK string real | NONE

definition send_result :: "BoundingBox list \<Rightarrow> reply" where
  "send_result boxes =
     (case first_result boxes of
        Some b \<Rightarrow> OK (box_label b) (box_confidence b)
      | None \<Rightarrow> NONE)"

definition runInference :: "32 word \<Rightarrow> 32 word \<Rightarrow> ei_bounding_box list \<Rightarrow> reply option" where
  "runInference input_width input_height raw =
     (case apply_filters input_width input_height (map from_raw raw) of
        None \<Rightarrow> None
      | Some boxes \<Rightarrow> Some (send_result boxes))"

text \<open>
  A stage may raise the flag of a box and nothing else: \<open>raised a b\<close> says that \<open>b\<close> is
  \<open>a\<close>, or \<open>a\<close> is not suppressed and \<open>b\<close> is \<open>a\<close> with the flag set.
\<close>

definition raised :: "BoundingBox \<Rightarrow> BoundingBox \<Rightarrow> bool" where
  "raised a b = (b = a \<or> (\<not> box_suppressed a \<and> b = a\<lparr> box_suppressed := True \<rparr>))"

definition sorted_desc :: "BoundingBox list \<Rightarrow> bool" where
  "sorted_desc boxes =
     (\<forall>p q. p \<le> q \<and> q < length boxes \<longrightarrow>
        box_confidence (boxes ! q) \<le> box_confidence (boxes ! p))"

text \<open>
  Three detections of one class that overlap pairwise, with the confidences 0.9, 0.8 and
  0.95 in this order; the third is eleven times as wide as it is high.
\<close>

definition wide_a :: ei_bounding_box where
  "wide_a = \<lparr> bb_label = ''CAN3'', bb_x = 0, bb_y = 0, bb_width = 40, bb_height = 4,
     bb_value = 9 / 10 \<rparr>"

definition wide_b :: ei_bounding_box where
  "wide_b = \<lparr> bb_label = ''CAN3'', bb_x = 0, bb_y = 0, bb_width = 36, bb_height = 4,
     bb_value = 8 / 10 \<rparr>"

definition wide_c :: ei_bounding_box where
  "wide_c = \<lparr> bb_label = ''CAN3'', bb_x = 0, bb_y = 0, bb_width = 44, bb_height = 4,
     bb_value = 95 / 100 \<rparr>"

text \<open>Three square detections of one class, two pixels apart, with the same confidences.\<close>

definition square_a :: ei_bounding_box where
  "square_a = \<lparr> bb_label = ''GLASS3'', bb_x = 10, bb_y = 10, bb_width = 16, bb_height = 16,
     bb_value = 9 / 10 \<rparr>"

definition square_b :: ei_bounding_box where
  "square_b = \<lparr> bb_label = ''GLASS3'', bb_x = 12, bb_y = 10, bb_width = 16, bb_height = 16,
     bb_value = 8 / 10 \<rparr>"

definition square_c :: ei_bounding_box where
  "square_c = \<lparr> bb_label = ''GLASS3'', bb_x = 14, bb_y = 10, bb_width = 16, bb_height = 16,
     bb_value = 95 / 100 \<rparr>"

subsection \<open>Notions used to state what the loops do\<close>

text \<open>
  One pass over the positions \<open>0, ..., m\<close>: the positions after \<open>m\<close> keep their boxes,
  position \<open>m\<close> receives a box of least confidence among the first \<open>m + 1\<close>, and these
  come from the first \<open>m + 1\<close> boxes of the input.
\<close>

definition pass_result :: "nat \<Rightarrow> BoundingBox list \<Rightarrow> BoundingBox list \<Rightarrow> bool" where
  "pass_result m boxes r =
     (length r = length boxes
      \<and> (\<forall>k. m < k \<and> k < length boxes \<longrightarrow> r ! k = boxes ! k)
      \<and> (\<forall>k \<le> m. box_confidence (r ! m) \<le> box_confidence (r ! k))
      \<and> (\<forall>k \<le> m. \<exists>k' \<le> m. r ! k = boxes ! k'))"

text \<open>
  After \<open>t\<close> passes the last \<open>t\<close> positions are in descending order, and no box before
  them has less confidence than a box among them.
\<close>

definition sorted_tail :: "nat \<Rightarrow> BoundingBox list \<Rightarrow> bool" where
  "sorted_tail t r =
     ((\<forall>p q. length r - t \<le> p \<and> p \<le> q \<and> q < length r \<longrightarrow>
          box_confidence (r ! q) \<le> box_confidence (r ! p))
      \<and> (\<forall>p q. p < length r - t \<and> length r - t \<le> q \<and> q < length r \<longrightarrow>
          box_confidence (r ! q) \<le> box_confidence (r ! p)))"

text \<open>
  The array \<open>out\<close> after the rounds \<open>i < k\<close> of the outer loop of \<open>applyNMS\<close> on the
  sorted array \<open>s\<close>: a box is suppressed when it was not suppressed before and an earlier
  box \<open>i < k\<close> of the same class, itself not suppressed, overlaps with it; every other box
  is unchanged.
\<close>

definition nms_result :: "nat \<Rightarrow> BoundingBox list \<Rightarrow> BoundingBox list \<Rightarrow> bool" where
  "nms_result k s out =
     (length out = length s
      \<and> (\<forall>j < length s.
           out ! j =
             (if \<not> box_suppressed (s ! j)
                 \<and> (\<exists>i. i < k \<and> i < j \<and> \<not> box_suppressed (out ! i)
                        \<and> sameClass (s ! i) (s ! j) \<and> overlapping (s ! i) (s ! j))
              then suppress (s ! j) else s ! j)))"


section \<open>Properties of the sort controller\<close>

subsection \<open>Auxiliary facts\<close>

lemma emit_fields [simp]:
  "state (emit cs s) = state s" "votesCan (emit cs s) = votesCan s"
  "votesGlass (emit cs s) = votesGlass s" "votesBottle (emit cs s) = votesBottle s"
  "confCan (emit cs s) = confCan s" "confGlass (emit cs s) = confGlass s"
  "confBottle (emit cs s) = confBottle s" "deadline (emit cs s) = deadline s"
  "repositionAttempts (emit cs s) = repositionAttempts s"
  "consecutiveNones (emit cs s) = consecutiveNones s"
  "hw (emit cs s) = hw s @ cs"
  by (simp_all add: emit_def)

lemma quorum_emit [simp]:
  "hasMajority (emit cs s) = hasMajority s" "getTotalVotes (emit cs s) = getTotalVotes s"
  "calculateBin (emit cs s) = calculateBin s"
  by (simp_all add: hasMajority_def getTotalVotes_def calculateBin_def Let_def)

lemma quorum_state_upd [simp]:
  "hasMajority (s\<lparr> state := q \<rparr>) = hasMajority s"
  "getTotalVotes (s\<lparr> state := q \<rparr>) = getTotalVotes s"
  "calculateBin (s\<lparr> state := q \<rparr>) = calculateBin s"
  by (simp_all add: hasMajority_def getTotalVotes_def calculateBin_def Let_def)

text \<open>Unfolding rules for running the machine on given inputs.\<close>

lemmas ev = runStateMachine_def detecting_def seen_def none_reply_def power_on_def
        isObjectPresent_def DISTANCE_MIN_def DISTANCE_MAX_def emit_def resetVotes_def
        requestInference_def TIMEOUT_MS_def no_detection_def is_reply_def
        safe_char_def parseResponse_def strncmp_eq_def
        MAX_REPOSITIONS_def word_less_nat_alt give_up_def zero_votes_def updateDisplay_def
        moveServo1_def S1_HOME_def S1_REPOSITION1_def S1_REPOSITION2_def snprintf17_def
        fmt_d_def digit_def

lemma step_no_quorum:
  assumes "voting s \<longrightarrow> no_quorum s"
  shows "voting (runStateMachine atof e s) \<longrightarrow> no_quorum (runStateMachine atof e s)"
proof (cases "state s")
  case STATE_WAIT
  with assms have nq: "no_quorum s" by (simp add: voting_def)
  show ?thesis
  proof (cases "rx e")
    case None
    with STATE_WAIT nq show ?thesis
      by (simp add: runStateMachine_def voting_def)
  next
    case (Some bytes)
    with STATE_WAIT nq show ?thesis
      by (auto simp add: runStateMachine_def voting_def Let_def detection_success_def
          no_detection_def give_up_def no_quorum_def hasMajority_def getTotalVotes_def
          split: prod.splits)
  qed
qed (use assms in \<open>auto simp add: runStateMachine_def voting_def Let_def no_quorum_def
      hasMajority_def getTotalVotes_def resetVotes_def requestInference_def
      MAJORITY_VOTES_def MAX_VOTES_def\<close>)

lemma reachable_no_quorum: "reachable atof s \<Longrightarrow> voting s \<longrightarrow> no_quorum s"
proof (induction rule: reachable.induct)
  case start
  show ?case by (simp add: voting_def power_on_def)
next
  case (step s e)
  from step.IH show ?case by (rule step_no_quorum)
qed

lemma recordVote_other:
  "className \<noteq> ''CAN3'' \<Longrightarrow> className \<noteq> ''GLASS3'' \<Longrightarrow> className \<noteq> ''BOTTLE3'' \<Longrightarrow>
   recordVote className confidence s = s\<lparr> consecutiveNones := 0 \<rparr>"
  by (simp add: recordVote_def)

subsection \<open>Votes for a label outside the class set\<close>

text \<open>
  Claim C10. For a class name other than \<open>CAN3\<close>, \<open>GLASS3\<close> and \<open>BOTTLE3\<close>,
  \<open>recordVote\<close> changes nothing but \<open>consecutiveNones\<close>, which it sets to zero: the three
  vote counts and the three confidence sums stay as they are. Consequently, when the
  machine waits (in any state it can reach from power-on) and an accepted reply carries
  such a label, the machine goes back to \<open>STATE_REQUEST\<close> with the same vote counts,
  confidence sums, total and majority status as before.
\<close>

theorem unknown_label_vote:
  assumes "className \<notin> {''CAN3'', ''GLASS3'', ''BOTTLE3''}"
  shows "recordVote className confidence s = s\<lparr> consecutiveNones := 0 \<rparr>
    \<and> (reachable atof s \<and> state s = STATE_WAIT \<and> \<not> millis e > deadline s
        \<and> rx e = Some bytes
        \<and> parseResponse atof (read_loop [] bytes) [] 0 = (True, className, confidence)
       \<longrightarrow> (let s' = runStateMachine atof e s in
            state s' = STATE_REQUEST
            \<and> votesCan s' = votesCan s \<and> votesGlass s' = votesGlass s
            \<and> votesBottle s' = votesBottle s
            \<and> confCan s' = confCan s \<and> confGlass s' = confGlass s
            \<and> confBottle s' = confBottle s
            \<and> consecutiveNones s' = 0
            \<and> getTotalVotes s' = getTotalVotes s \<and> hasMajority s' = hasMajority s))"
proof (intro conjI impI)
  from assms show rv: "recordVote className confidence s = s\<lparr> consecutiveNones := 0 \<rparr>"
    by (simp add: recordVote_other)
  assume a: "reachable atof s \<and> state s = STATE_WAIT \<and> \<not> millis e > deadline s
        \<and> rx e = Some bytes
        \<and> parseResponse atof (read_loop [] bytes) [] 0 = (True, className, confidence)"
  then have nq: "no_quorum s"
    using reachable_no_quorum [of atof s] by (simp add: voting_def)
  from a have ne: "read_loop [] bytes \<noteq> []"
    by (auto simp add: parseResponse_def)
  have nq': "\<not> hasMajority (s\<lparr> consecutiveNones := 0 \<rparr>)"
       "\<not> MAX_VOTES \<le> getTotalVotes (s\<lparr> consecutiveNones := 0 \<rparr>)"
    using nq by (simp_all add: no_quorum_def hasMajority_def getTotalVotes_def)
  have "runStateMachine atof e s = detection_success className confidence s"
    using a ne by (simp add: runStateMachine_def)
  also have "\<dots> = (emit (showVotes (s\<lparr> consecutiveNones := 0 \<rparr>)) (s\<lparr> consecutiveNones := 0 \<rparr>))
      \<lparr> state := STATE_REQUEST \<rparr>"
    using nq' by (simp add: detection_success_def rv Let_def)
  finally show "let s' = runStateMachine atof e s in
            state s' = STATE_REQUEST
            \<and> votesCan s' = votesCan s \<and> votesGlass s' = votesGlass s
            \<and> votesBottle s' = votesBottle s
            \<and> confCan s' = confCan s \<and> confGlass s' = confGlass s
            \<and> confBottle s' = confBottle s
            \<and> consecutiveNones s' = 0
            \<and> getTotalVotes s' = getTotalVotes s \<and> hasMajority s' = hasMajority s"
    by (simp add: Let_def hasMajority_def getTotalVotes_def)
qed

lemma reachable_run: "reachable atof s \<Longrightarrow> reachable atof (run atof es s)"
  by (induction es arbitrary: s) (auto intro: reachable.step)

lemma run3: "run (\<lambda>_. 9 / 10) [seen, seen, seen] power_on =
   \<lparr> state = STATE_WAIT, votesCan = 0, votesGlass = 0, votesBottle = 0,
     confCan = 0, confGlass = 0, confBottle = 0, deadline = 3500,
     repositionAttempts = 0, consecutiveNones = 0,
     hw = [Lcd ''Ready'' [], Lcd ''Detecting'' ''Object present'', Servo1 0,
           Lcd ''Requesting'' ''Inference...'', EspPrintln ''INFER''] \<rparr>"
  by (simp add: runStateMachine_def seen_def power_on_def isObjectPresent_def DISTANCE_MIN_def
      DISTANCE_MAX_def emit_def updateDisplay_def moveServo1_def resetVotes_def
      requestInference_def TIMEOUT_MS_def S1_HOME_def)

lemma parse_paper:
  "parseResponse (\<lambda>_. 9 / 10) (read_loop [] (''xxOK:PAPER:0.90'' @ [CHR 0x0D, CHR 0x0A])) [] 0
   = (True, ''PAPER'', 9 / 10)"
  by (simp add: parseResponse_def safe_char_def strncmp_eq_def MIN_CONFIDENCE_def)

text \<open>
  An instance: after power-on the object is seen, the request is sent, and the reply
  \<open>xxOK:PAPER:0.90\<close> arrives.
\<close>

theorem unknown_label_vote_witness:
  "''PAPER'' \<notin> {''CAN3'', ''GLASS3'', ''BOTTLE3''}
   \<and> (let s = run (\<lambda>_. 9 / 10) [seen, seen, seen] power_on;
           s' = runStateMachine (\<lambda>_. 9 / 10)
                  (seen\<lparr> rx := Some (''xxOK:PAPER:0.90'' @ [CHR 0x0D, CHR 0x0A]) \<rparr>) s
       in state s = STATE_WAIT \<and> state s' = STATE_REQUEST \<and> getTotalVotes s' = 0
          \<and> consecutiveNones s' = 0)"
proof -
  let ?atof = "\<lambda>_ :: string. 9 / 10 :: real"
  let ?s = "run ?atof [seen, seen, seen] power_on"
  let ?e = "seen\<lparr> rx := Some (''xxOK:PAPER:0.90'' @ [CHR 0x0D, CHR 0x0A]) \<rparr>"
  have l: "''PAPER'' \<notin> {''CAN3'', ''GLASS3'', ''BOTTLE3''}" by simp
  have r: "reachable ?atof ?s" by (rule reachable_run [OF reachable.start])
  have w: "state ?s = STATE_WAIT" "\<not> millis ?e > deadline ?s" "getTotalVotes ?s = 0"
    unfolding run3 by (simp_all add: getTotalVotes_def seen_def)
  have x: "rx ?e = Some (''xxOK:PAPER:0.90'' @ [CHR 0x0D, CHR 0x0A])" by simp
  from unknown_label_vote [OF l, of "9 / 10" ?s ?atof ?e "''xxOK:PAPER:0.90'' @ [CHR 0x0D, CHR 0x0A]"]
    r w x parse_paper l
  show ?thesis by (simp add: Let_def)
qed

subsection \<open>The bin decision\<close>

text \<open>
  Claim C1. When a vote count has reached \<open>MAJORITY_VOTES\<close>, \<open>calculateBin\<close> returns the
  bin of that class, the first of CAN (1), GLASS (2), BOTTLE (3) when several have reached
  it, and the result does not change when the three confidence sums are replaced by any
  other values.
\<close>

theorem calculateBin_majority:
  "(MAJORITY_VOTES \<le> votesCan s \<longrightarrow> calculateBin s = 1)
   \<and> (\<not> MAJORITY_VOTES \<le> votesCan s \<and> MAJORITY_VOTES \<le> votesGlass s \<longrightarrow> calculateBin s = 2)
   \<and> (\<not> MAJORITY_VOTES \<le> votesCan s \<and> \<not> MAJORITY_VOTES \<le> votesGlass s
        \<and> MAJORITY_VOTES \<le> votesBottle s \<longrightarrow> calculateBin s = 3)
   \<and> (hasMajority s \<longrightarrow>
        calculateBin (s\<lparr> confCan := a, confGlass := b, confBottle := c \<rparr>) = calculateBin s)"
  by (simp add: calculateBin_def hasMajority_def)

text \<open>Instances: all three counts at the threshold; GLASS and BOTTLE; BOTTLE alone.\<close>

theorem calculateBin_majority_witness:
  "(let s = power_on\<lparr> votesCan := 2, votesGlass := 2, votesBottle := 3,
                       confCan := 1, confGlass := 5, confBottle := 7 \<rparr>
    in MAJORITY_VOTES \<le> votesCan s \<and> hasMajority s \<and> calculateBin s = 1
       \<and> calculateBin (s\<lparr> confCan := 0, confGlass := 9, confBottle := 2 \<rparr>) = 1)
   \<and> (let s = power_on\<lparr> votesCan := 1, votesGlass := 2, votesBottle := 2, confBottle := 7 \<rparr>
      in \<not> MAJORITY_VOTES \<le> votesCan s \<and> MAJORITY_VOTES \<le> votesGlass s \<and> calculateBin s = 2)
   \<and> (let s = power_on\<lparr> votesCan := 1, votesBottle := 2, confCan := 7 \<rparr>
      in \<not> MAJORITY_VOTES \<le> votesCan s \<and> \<not> MAJORITY_VOTES \<le> votesGlass s
         \<and> MAJORITY_VOTES \<le> votesBottle s \<and> calculateBin s = 3)"
proof -
  let ?s1 = "power_on\<lparr> votesCan := 2, votesGlass := 2, votesBottle := 3,
                       confCan := 1, confGlass := 5, confBottle := 7 \<rparr>"
  let ?s2 = "power_on\<lparr> votesCan := 1, votesGlass := 2, votesBottle := 2, confBottle := 7 \<rparr>"
  let ?s3 = "power_on\<lparr> votesCan := 1, votesBottle := 2, confCan := 7 \<rparr>"
  have h1: "MAJORITY_VOTES \<le> votesCan ?s1" "hasMajority ?s1"
    by (simp_all add: power_on_def MAJORITY_VOTES_def hasMajority_def)
  have h2: "\<not> MAJORITY_VOTES \<le> votesCan ?s2" "MAJORITY_VOTES \<le> votesGlass ?s2"
    by (simp_all add: power_on_def MAJORITY_VOTES_def word_le_nat_alt)
  have h3: "\<not> MAJORITY_VOTES \<le> votesCan ?s3" "\<not> MAJORITY_VOTES \<le> votesGlass ?s3"
    "MAJORITY_VOTES \<le> votesBottle ?s3"
    by (simp_all add: power_on_def MAJORITY_VOTES_def word_le_nat_alt)
  from calculateBin_majority [where s = ?s1 and a = 0 and b = 9 and c = 2]
    calculateBin_majority [where s = ?s2] calculateBin_majority [where s = ?s3] h1 h2 h3
  show ?thesis by (simp add: Let_def)
qed

text \<open>
  The tally is written in three places: it is set to zero, and \<open>recordVote\<close> adds a vote,
  which \<open>STATE_WAIT\<close> calls only with a confidence that \<open>parseResponse\<close> has accepted.
\<close>

lemma parseResponse_accepted:
  "parseResponse atof buffer c0 f0 = (True, className, confidence) \<Longrightarrow>
   MIN_CONFIDENCE \<le> confidence"
  by (auto simp add: parseResponse_def Let_def split: if_splits option.splits)

lemma recordVote_backed:
  assumes "vote_backed s" "MIN_CONFIDENCE \<le> confidence"
  shows "vote_backed (recordVote className confidence s)"
proof -
  have "0 \<le> MIN_CONFIDENCE" by (simp add: MIN_CONFIDENCE_def)
  with assms show ?thesis
    by (auto simp add: vote_backed_def recordVote_def Let_def)
qed

lemma step_vote_backed:
  assumes "vote_backed s"
  shows "vote_backed (runStateMachine atof e s)"
proof (cases "state s")
  case STATE_WAIT
  show ?thesis
  proof (cases "rx e")
    case None
    with STATE_WAIT assms show ?thesis
      by (simp add: runStateMachine_def vote_backed_def)
  next
    case (Some bytes)
    obtain ok className confidence where
      p: "parseResponse atof (read_loop [] bytes) [] 0 = (ok, className, confidence)"
      by (cases "parseResponse atof (read_loop [] bytes) [] 0") auto
    have r: "runStateMachine atof e s =
        (if millis e > deadline s then s\<lparr> state := STATE_ERROR \<rparr>
         else if read_loop [] bytes = [] then s
         else if ok then detection_success className confidence s
         else no_detection e s)"
      using STATE_WAIT Some p by (simp add: runStateMachine_def Let_def)
    have 1: "vote_backed (s\<lparr> state := STATE_ERROR \<rparr>)"
      using assms by (simp add: vote_backed_def)
    have 2: "vote_backed (detection_success className confidence s)" if ok
    proof -
      from p that have "MIN_CONFIDENCE \<le> confidence" by (simp add: parseResponse_accepted)
      with assms have "vote_backed (recordVote className confidence s)"
        by (rule recordVote_backed)
      then show ?thesis
        by (simp add: detection_success_def Let_def vote_backed_def)
    qed
    have 3: "vote_backed (no_detection e s)"
      using assms
      by (simp add: no_detection_def Let_def give_up_def zero_votes_def vote_backed_def)
    from 1 2 3 assms show ?thesis unfolding r by simp
  qed
qed (use assms in \<open>simp_all add: runStateMachine_def vote_backed_def Let_def
      resetVotes_def requestInference_def zero_votes_def\<close>)

lemma reachable_vote_backed: "reachable atof s \<Longrightarrow> vote_backed s"
proof (induction rule: reachable.induct)
  case start
  show ?case by (simp add: vote_backed_def power_on_def)
next
  case (step s e)
  from step.IH show ?case by (rule step_vote_backed)
qed

lemma calculateBin_no_majority:
  assumes "\<not> hasMajority s" and "getTotalVotes s \<noteq> 0"
  shows "(max (confCan s) (max (confGlass s) (confBottle s)) < 1 / 100 \<longrightarrow> calculateBin s = 4)
   \<and> (1 / 100 \<le> max (confCan s) (max (confGlass s) (confBottle s)) \<longrightarrow>
        (calculateBin s = 1 \<longleftrightarrow> confGlass s \<le> confCan s \<and> confBottle s \<le> confCan s)
      \<and> (calculateBin s = 2 \<longleftrightarrow> confCan s < confGlass s \<and> confBottle s \<le> confGlass s)
      \<and> (calculateBin s = 3 \<longleftrightarrow> confCan s < confBottle s \<and> confGlass s < confBottle s))"
  using assms by (auto simp add: calculateBin_def hasMajority_def Let_def)

lemma voted_above_floor:
  assumes "vote_backed s" and "getTotalVotes s \<noteq> 0"
  shows "1 / 100 \<le> max (confCan s) (max (confGlass s) (confBottle s))"
proof -
  from assms(2) have "votesCan s \<noteq> 0 \<or> votesGlass s \<noteq> 0 \<or> votesBottle s \<noteq> 0"
    by (auto simp add: getTotalVotes_def)
  with assms(1) have "MIN_CONFIDENCE \<le> confCan s \<or> MIN_CONFIDENCE \<le> confGlass s
      \<or> MIN_CONFIDENCE \<le> confBottle s"
    by (auto simp add: vote_backed_def)
  then show ?thesis by (auto simp add: MIN_CONFIDENCE_def)
qed

text \<open>
  Claim C2. Take any tally the machine can hold (a state reached from power-on, whatever
  the sensor, the clock and the serial link deliver) in which no class has reached the
  majority threshold and the total vote count is not zero. Then \<open>calculateBin\<close> returns
  the class with the greatest confidence sum: GLASS or BOTTLE only when its sum is
  strictly greater than the sums of the classes before it in the order CAN, GLASS,
  BOTTLE, so that equal sums go to the earlier class; and the result is one of the three
  classes, never bin 4. (The test \<open>maxConf < 0.01\<close> of \<open>calculateBin\<close> cannot succeed here:
  each recorded vote has added at least \<open>MIN_CONFIDENCE\<close> to a sum.)
\<close>

theorem calculateBin_confidence:
  assumes "reachable atof s" and "\<not> hasMajority s" and "getTotalVotes s \<noteq> 0"
  shows "(calculateBin s = 1 \<longleftrightarrow> confGlass s \<le> confCan s \<and> confBottle s \<le> confCan s)
      \<and> (calculateBin s = 2 \<longleftrightarrow> confCan s < confGlass s \<and> confBottle s \<le> confGlass s)
      \<and> (calculateBin s = 3 \<longleftrightarrow> confCan s < confBottle s \<and> confGlass s < confBottle s)
      \<and> calculateBin s \<in> {1, 2, 3}"
proof -
  from assms(1) have "vote_backed s" by (rule reachable_vote_backed)
  then have f: "1 / 100 \<le> max (confCan s) (max (confGlass s) (confBottle s))"
    using assms(3) by (rule voted_above_floor)
  with calculateBin_no_majority [OF assms(2,3)] have
    c: "(calculateBin s = 1 \<longleftrightarrow> confGlass s \<le> confCan s \<and> confBottle s \<le> confCan s)"
       "(calculateBin s = 2 \<longleftrightarrow> confCan s < confGlass s \<and> confBottle s \<le> confGlass s)"
       "(calculateBin s = 3 \<longleftrightarrow> confCan s < confBottle s \<and> confGlass s < confBottle s)"
    by simp_all
  have "calculateBin s = 1 \<or> calculateBin s = 2 \<or> calculateBin s = 3"
    unfolding c by linarith
  with c show ?thesis by simp
qed

text \<open>
  The scenario of the specification, reached from power-on: one vote for CAN with 0.7 and
  one for GLASS with 0.9 give GLASS.
\<close>

lemma two_votes_run:
  "(let s = run atof_votes two_votes power_on
    in votesCan s = 1 \<and> votesGlass s = 1 \<and> votesBottle s = 0
       \<and> confCan s = 7 / 10 \<and> confGlass s = 9 / 10 \<and> confBottle s = 0)"
  by (simp add: two_votes_def ev detection_success_def recordVote_def showVotes_def
      hasMajority_def getTotalVotes_def MAJORITY_VOTES_def MAX_VOTES_def word_le_nat_alt
      MIN_CONFIDENCE_def atof_votes_def)

theorem calculateBin_confidence_witness:
  "(let s = run atof_votes two_votes power_on
    in reachable atof_votes s \<and> \<not> hasMajority s \<and> getTotalVotes s \<noteq> 0
       \<and> votesCan s = 1 \<and> votesGlass s = 1 \<and> confCan s = 7 / 10 \<and> confGlass s = 9 / 10
       \<and> confCan s < confGlass s \<and> confBottle s \<le> confGlass s \<and> calculateBin s = 2)"
proof -
  define s where "s = run atof_votes two_votes power_on"
  have r: "reachable atof_votes s"
    unfolding s_def by (rule reachable_run [OF reachable.start])
  have v: "votesCan s = 1" "votesGlass s = 1" "votesBottle s = 0" "confCan s = 7 / 10"
    "confGlass s = 9 / 10" "confBottle s = 0"
    using two_votes_run unfolding s_def Let_def by blast+
  have h: "\<not> hasMajority s" "getTotalVotes s \<noteq> 0"
    by (simp_all add: hasMajority_def getTotalVotes_def v MAJORITY_VOTES_def word_le_nat_alt)
  from calculateBin_confidence [OF r h] r h v
  have "reachable atof_votes s \<and> \<not> hasMajority s \<and> getTotalVotes s \<noteq> 0
       \<and> votesCan s = 1 \<and> votesGlass s = 1 \<and> confCan s = 7 / 10 \<and> confGlass s = 9 / 10
       \<and> confCan s < confGlass s \<and> confBottle s \<le> confGlass s \<and> calculateBin s = 2"
    by simp
  then show ?thesis unfolding s_def Let_def .
qed

subsection \<open>Timeout\<close>

text \<open>
  Claim C5. When the deadline has passed in \<open>STATE_WAIT\<close>, the next call enters
  \<open>STATE_ERROR\<close> and the call after it sets the three vote counts and the three
  confidence sums to zero, shows the outcome on the display, moves servo 1 home, runs the
  sequence of \<open>sortToBin(4)\<close> once and nothing else, and ends in \<open>STATE_IDLE\<close>.
\<close>

theorem timeout_sorts_unknown:
  assumes "state s = STATE_WAIT" and "millis e > deadline s"
  shows "state (runStateMachine atof e s) = STATE_ERROR
    \<and> (let s' = runStateMachine atof e' (runStateMachine atof e s) in
         state s' = STATE_IDLE
         \<and> votesCan s' = 0 \<and> votesGlass s' = 0 \<and> votesBottle s' = 0
         \<and> confCan s' = 0 \<and> confGlass s' = 0 \<and> confBottle s' = 0
         \<and> calculateBin s' = 4
         \<and> hw s' = hw s @ updateDisplay ''Error/Timeout'' ''-> Bin 4''
                     @ moveServo1 S1_HOME @ sortToBin 4
         \<and> sortToBin 4 = [Servo1 0, Servo1 90, Servo2 160, Servo2 90, Servo1 0])"
  using assms
  by (simp add: runStateMachine_def Let_def zero_votes_def calculateBin_def getTotalVotes_def
      MAJORITY_VOTES_def sortToBin_def moveServo1_def moveServo2_def performDrop_def
      S1_HOME_def S1_MID_def S2_LEFT_def S2_HOME_def)

text \<open>An instance: the request was sent at 1000 ms, the deadline is 3500 ms, it is now 3501 ms.\<close>

theorem timeout_sorts_unknown_witness:
  "(let s = run (\<lambda>_. 9 / 10) [seen, seen, seen] power_on;
        s' = run (\<lambda>_. 9 / 10) [seen\<lparr> millis := 3501 \<rparr>, seen] s
    in state s = STATE_WAIT \<and> millis (seen\<lparr> millis := 3501 \<rparr>) > deadline s
       \<and> state s' = STATE_IDLE \<and> calculateBin s' = 4
       \<and> hw s' = hw s @ [Lcd ''Error/Timeout'' ''-> Bin 4'', Servo1 0, Servo1 0, Servo1 90,
                          Servo2 160, Servo2 90, Servo1 0])"
proof -
  let ?s = "run (\<lambda>_. 9 / 10) [seen, seen, seen] power_on"
  have h: "state ?s = STATE_WAIT" "millis (seen\<lparr> millis := 3501 \<rparr>) > deadline ?s"
    unfolding run3 by (simp_all add: seen_def)
  from timeout_sorts_unknown [OF h, of "\<lambda>_. 9 / 10" seen] h
  show ?thesis
    by (simp add: Let_def updateDisplay_def moveServo1_def S1_HOME_def)
qed

subsection \<open>Decide, then sort\<close>

text \<open>
  Claim C8. The call in \<open>STATE_DECIDE\<close> shows the bin and goes to \<open>STATE_SORT\<close> without
  changing any vote count, confidence sum or counter, so the bin computed in
  \<open>STATE_SORT\<close> is the bin computed in \<open>STATE_DECIDE\<close>, and it is this bin that is sorted
  to. \<open>calculateBin\<close> depends on the three vote counts and the three confidence sums only.
\<close>

theorem sort_repeats_decide:
  assumes "state s = STATE_DECIDE"
  shows "(let s1 = runStateMachine atof e s; s2 = runStateMachine atof e' s1 in
           state s1 = STATE_SORT
           \<and> votesCan s1 = votesCan s \<and> votesGlass s1 = votesGlass s
           \<and> votesBottle s1 = votesBottle s
           \<and> confCan s1 = confCan s \<and> confGlass s1 = confGlass s
           \<and> confBottle s1 = confBottle s
           \<and> repositionAttempts s1 = repositionAttempts s
           \<and> consecutiveNones s1 = consecutiveNones s
           \<and> calculateBin s1 = calculateBin s
           \<and> hw s1 = hw s @ updateDisplay (snprintf17 (''Bin '' @ fmt_d (calculateBin s)))
                               (bin_name (calculateBin s))
           \<and> hw s2 = hw s1 @ sortToBin (calculateBin s)
           \<and> state s2 = STATE_IDLE)
    \<and> (\<forall>t. votesCan t = votesCan s \<and> votesGlass t = votesGlass s
            \<and> votesBottle t = votesBottle s \<and> confCan t = confCan s
            \<and> confGlass t = confGlass s \<and> confBottle t = confBottle s
          \<longrightarrow> calculateBin t = calculateBin s)"
  using assms
  by (simp add: runStateMachine_def Let_def) (simp add: calculateBin_def getTotalVotes_def Let_def)

text \<open>An instance: two votes for CAN and one for GLASS.\<close>

theorem sort_repeats_decide_witness:
  "(let s = power_on\<lparr> state := STATE_DECIDE, votesCan := 2, votesGlass := 1,
                      confCan := 3 / 2, confGlass := 9 / 10 \<rparr>;
        s1 = runStateMachine (\<lambda>_. 0) seen s;
        s2 = runStateMachine (\<lambda>_. 0) seen s1
    in state s = STATE_DECIDE \<and> calculateBin s = 1 \<and> state s1 = STATE_SORT
       \<and> calculateBin s1 = 1
       \<and> hw s1 = [Lcd ''Bin 1'' ''CAN'']
       \<and> hw s2 = [Lcd ''Bin 1'' ''CAN'', Servo1 0, Servo1 0, Servo2 20, Servo2 90, Servo1 0]
       \<and> calculateBin (power_on\<lparr> votesCan := 2, votesGlass := 1, confCan := 3 / 2,
                                 confGlass := 9 / 10, consecutiveNones := 7 \<rparr>) = 1)"
proof -
  define s where "s = power_on\<lparr> state := STATE_DECIDE, votesCan := 2, votesGlass := 1,
                      confCan := 3 / 2, confGlass := 9 / 10 \<rparr>"
  define t where "t = power_on\<lparr> votesCan := 2, votesGlass := 1, confCan := 3 / 2,
                                 confGlass := 9 / 10, consecutiveNones := 7 \<rparr>"
  have h: "state s = STATE_DECIDE" by (simp add: s_def)
  have b: "calculateBin s = 1" by (simp add: s_def calculateBin_def power_on_def MAJORITY_VOTES_def)
  have e: "votesCan t = votesCan s \<and> votesGlass t = votesGlass s
            \<and> votesBottle t = votesBottle s \<and> confCan t = confCan s
            \<and> confGlass t = confGlass s \<and> confBottle t = confBottle s"
    by (simp add: s_def t_def power_on_def)
  have w: "hw s = []" by (simp add: s_def power_on_def)
  from sort_repeats_decide [OF h, of "\<lambda>_. 0" seen seen] e b w h
  have "let s1 = runStateMachine (\<lambda>_. 0) seen s; s2 = runStateMachine (\<lambda>_. 0) seen s1
    in state s = STATE_DECIDE \<and> calculateBin s = 1 \<and> state s1 = STATE_SORT
       \<and> calculateBin s1 = 1
       \<and> hw s1 = [Lcd ''Bin 1'' ''CAN'']
       \<and> hw s2 = [Lcd ''Bin 1'' ''CAN'', Servo1 0, Servo1 0, Servo2 20, Servo2 90, Servo1 0]
       \<and> calculateBin t = 1"
    by (simp add: Let_def updateDisplay_def snprintf17_def fmt_d_def digit_def bin_name_def
        sortToBin_def moveServo1_def performDrop_def moveServo2_def S1_HOME_def S2_RIGHT_def
        S2_HOME_def)
  then show ?thesis unfolding s_def t_def Let_def .
qed

subsection \<open>Repositioning is bounded\<close>

lemma le2_cases: "(k :: nat) \<le> 2 \<Longrightarrow> k = 0 \<or> k = 1 \<or> k = 2"
  by arith

lemma wait_non_detection:
  assumes inv: "repositioning s n k" and w: "state s = STATE_WAIT"
    and p: "isObjectPresent e" and t: "\<not> millis e > deadline s"
    and r: "rx e = Some bytes" and ne: "read_loop [] bytes \<noteq> []"
    and nd: "\<not> fst (parseResponse atof (read_loop [] bytes) [] 0)"
  shows "repositioning (runStateMachine atof e s) n (k + 1)"
proof -
  from nd w t r ne have step: "runStateMachine atof e s = no_detection e s"
    by (cases "parseResponse atof (read_loop [] bytes) [] 0") (simp add: runStateMachine_def)
  from inv w have k: "k \<le> 2" and a: "repositionAttempts s = of_nat k" and n: "n = k + 1"
    by (simp_all add: repositioning_def)
  from le2_cases [OF k] show ?thesis
  proof (elim disjE)
    assume "k = 0"
    with a n p show ?thesis
      by (simp add: step no_detection_def repositioning_def Let_def MAX_REPOSITIONS_def)
  next
    assume "k = 1"
    with a n show ?thesis
      by (simp add: step no_detection_def repositioning_def Let_def MAX_REPOSITIONS_def
          word_less_nat_alt)
  next
    assume "k = 2"
    with a n show ?thesis
      by (simp add: step no_detection_def repositioning_def Let_def MAX_REPOSITIONS_def
          give_up_def zero_votes_def)
  qed
qed

lemma step_repositioning:
  assumes inv: "repositioning s n k" and nd: "state s \<noteq> STATE_DECIDE"
    and p: "isObjectPresent e" and t: "\<not> (state s = STATE_WAIT \<and> millis e > deadline s)"
    and q: "case rx e of None \<Rightarrow> True
          | Some bytes \<Rightarrow> \<not> fst (parseResponse atof (read_loop [] bytes) [] 0)"
  shows "repositioning (runStateMachine atof e s)
           (if state s = STATE_REQUEST then n + 1 else n)
           (if is_reply e s then k + 1 else k)"
proof (cases "state s")
  case STATE_REQUEST
  with inv show ?thesis
    by (simp add: runStateMachine_def repositioning_def is_reply_def requestInference_def)
next
  case STATE_REPOSITION
  with inv have "k = 1 \<or> k = 2" by (auto simp add: repositioning_def)
  with inv STATE_REPOSITION show ?thesis
    by (auto simp add: runStateMachine_def repositioning_def is_reply_def Let_def)
next
  case STATE_WAIT
  show ?thesis
  proof (cases "is_reply e s")
    case True
    then obtain bytes where "rx e = Some bytes" "read_loop [] bytes \<noteq> []"
      by (auto simp add: is_reply_def split: option.splits)
    with wait_non_detection [OF inv STATE_WAIT p _ this] t q STATE_WAIT True
    show ?thesis by simp
  next
    case False
    with STATE_WAIT t have "runStateMachine atof e s = s"
      by (auto simp add: runStateMachine_def is_reply_def split: option.splits)
    with False STATE_WAIT inv show ?thesis by simp
  qed
qed (use inv nd in \<open>simp_all add: repositioning_def\<close>)

lemma until_decide_repositioning:
  "repositioning s n k \<Longrightarrow> only_non_detections atof es s \<Longrightarrow>
   (case until_decide atof es s n k of (s', n', k') \<Rightarrow> repositioning s' n' k')"
proof (induction es arbitrary: s n k)
  case Nil
  then show ?case by simp
next
  case (Cons e es)
  show ?case
  proof (cases "state s = STATE_DECIDE")
    case True
    with Cons.prems show ?thesis by simp
  next
    case False
    from Cons.prems have
      "repositioning (runStateMachine atof e s)
           (if state s = STATE_REQUEST then n + 1 else n)
           (if is_reply e s then k + 1 else k)"
      by (intro step_repositioning [OF _ False]) simp_all
    moreover from Cons.prems have "only_non_detections atof es (runStateMachine atof e s)"
      by simp
    ultimately show ?thesis using False Cons.IH by simp
  qed
qed

lemma word8_succ_le: "(x :: 8 word) < 2 \<Longrightarrow> x + 1 \<le> 2"
  by unat_arith

lemma step_within_budget:
  assumes "within_budget s"
  shows "within_budget (runStateMachine atof e s)"
proof (cases "state s")
  case STATE_WAIT
  show ?thesis
  proof (cases "rx e")
    case None
    with STATE_WAIT assms show ?thesis
      by (simp add: runStateMachine_def within_budget_def)
  next
    case (Some bytes)
    with STATE_WAIT assms show ?thesis
      by (auto simp add: runStateMachine_def within_budget_def Let_def detection_success_def
          recordVote_def no_detection_def give_up_def zero_votes_def split: prod.splits)
  qed
next
  case STATE_REPOSITION
  with assms show ?thesis
    by (simp add: runStateMachine_def within_budget_def Let_def MAX_REPOSITIONS_def
        word8_succ_le)
qed (use assms in \<open>auto simp add: runStateMachine_def within_budget_def Let_def
      resetVotes_def requestInference_def zero_votes_def MAX_REPOSITIONS_def\<close>)

lemma reachable_within_budget: "reachable atof s \<Longrightarrow> within_budget s"
proof (induction rule: reachable.induct)
  case start
  show ?case by (simp add: within_budget_def power_on_def MAX_REPOSITIONS_def)
next
  case (step s e)
  from step.IH show ?case by (rule step_within_budget)
qed

text \<open>
  Claim C3. Start where \<open>STATE_DETECT\<close> has confirmed the object. If from then on the
  object stays present, no deadline passes and no reply is accepted by \<open>parseResponse\<close>
  (\<open>NONE\<close>, \<open>ERR:\<close>, malformed or below the confidence threshold), then, however long the
  machine is run and however the replies are spread over the calls: at most
  \<open>MAX_REPOSITIONS + 1 = 3\<close> requests are sent before \<open>STATE_DECIDE\<close>, \<open>repositionAttempts\<close>
  never exceeds \<open>MAX_REPOSITIONS\<close>, the machine is in \<open>STATE_DECIDE\<close> exactly when the third
  reply has been processed, and it is there with all vote counts and confidence sums
  zero, so that the bin is 4. The statement holds for every list of calls, hence at every
  point of a run. Moreover, in every state that the machine can reach from power-on,
  whatever it receives, \<open>repositionAttempts\<close> is at most \<open>MAX_REPOSITIONS\<close>.
\<close>

theorem repositions_bounded:
  assumes "state s0 = STATE_DETECT" and "isObjectPresent e0"
    and "only_non_detections atof es (runStateMachine atof e0 s0)"
  shows "(case until_decide atof es (runStateMachine atof e0 s0) 0 0 of
           (s', requests, replies) \<Rightarrow>
             requests \<le> unat MAX_REPOSITIONS + 1
             \<and> repositionAttempts s' \<le> MAX_REPOSITIONS
             \<and> (state s' = STATE_DECIDE \<longleftrightarrow> replies = unat MAX_REPOSITIONS + 1)
             \<and> (state s' = STATE_DECIDE \<longrightarrow>
                  votesCan s' = 0 \<and> votesGlass s' = 0 \<and> votesBottle s' = 0
                  \<and> confCan s' = 0 \<and> confGlass s' = 0 \<and> confBottle s' = 0
                  \<and> calculateBin s' = 4))
         \<and> (\<forall>s. reachable atof s \<longrightarrow> repositionAttempts s \<le> MAX_REPOSITIONS)"
proof -
  from assms(1,2) have "repositioning (runStateMachine atof e0 s0) 0 0"
    by (simp add: runStateMachine_def repositioning_def resetVotes_def)
  from until_decide_repositioning [OF this assms(3)]
  obtain s' n k where u: "until_decide atof es (runStateMachine atof e0 s0) 0 0 = (s', n, k)"
    and inv: "repositioning s' n k"
    by (cases "until_decide atof es (runStateMachine atof e0 s0) 0 0") auto
  have bin: "state s' = STATE_DECIDE \<Longrightarrow> calculateBin s' = 4"
    using inv by (simp add: repositioning_def calculateBin_def getTotalVotes_def MAJORITY_VOTES_def)
  have k: "k \<le> 3" using inv by (cases "state s'") (simp_all add: repositioning_def)
  then have kc: "k = 0 \<or> k = 1 \<or> k = 2 \<or> k = 3" by arith
  have "n \<le> 3" using inv by (cases "state s'") (simp_all add: repositioning_def)
  moreover have "repositionAttempts s' \<le> 2"
    using inv kc by (cases "state s'") (auto simp add: repositioning_def word_le_nat_alt)
  moreover have "state s' = STATE_DECIDE \<longleftrightarrow> k = 3"
    using inv by (cases "state s'") (auto simp add: repositioning_def)
  moreover have "state s' = STATE_DECIDE \<longrightarrow>
      votesCan s' = 0 \<and> votesGlass s' = 0 \<and> votesBottle s' = 0
      \<and> confCan s' = 0 \<and> confGlass s' = 0 \<and> confBottle s' = 0"
    using inv by (auto simp add: repositioning_def)
  ultimately have "case until_decide atof es (runStateMachine atof e0 s0) 0 0 of
           (s', requests, replies) \<Rightarrow>
             requests \<le> unat MAX_REPOSITIONS + 1
             \<and> repositionAttempts s' \<le> MAX_REPOSITIONS
             \<and> (state s' = STATE_DECIDE \<longleftrightarrow> replies = unat MAX_REPOSITIONS + 1)
             \<and> (state s' = STATE_DECIDE \<longrightarrow>
                  votesCan s' = 0 \<and> votesGlass s' = 0 \<and> votesBottle s' = 0
                  \<and> confCan s' = 0 \<and> confGlass s' = 0 \<and> confBottle s' = 0
                  \<and> calculateBin s' = 4)"
    using bin by (simp add: u MAX_REPOSITIONS_def)
  moreover have "\<forall>s. reachable atof s \<longrightarrow> repositionAttempts s \<le> MAX_REPOSITIONS"
    using reachable_within_budget by (simp add: within_budget_def)
  ultimately show ?thesis by blast
qed

lemma none_reply_parse:
  "read_loop [] (''NONE'' @ [CHR 0x0D, CHR 0x0A]) = ''NONE''"
  "parseResponse atof ''NONE'' [] 0 = (False, [], 0)"
  by (simp_all add: safe_char_def parseResponse_def strncmp_eq_def)

text \<open>
  An instance: three requests, each answered by \<open>NONE\<close> one call later, with two
  repositioning moves in between.
\<close>

theorem repositions_bounded_witness:
  "state detecting = STATE_DETECT \<and> isObjectPresent seen
   \<and> only_non_detections (\<lambda>_. 0)
        [seen, none_reply, seen, seen, seen, none_reply, seen, seen, none_reply]
        (runStateMachine (\<lambda>_. 0) seen detecting)
   \<and> (case until_decide (\<lambda>_. 0)
        [seen, none_reply, seen, seen, seen, none_reply, seen, seen, none_reply]
        (runStateMachine (\<lambda>_. 0) seen detecting) 0 0 of
        (s', requests, replies) \<Rightarrow>
          state s' = STATE_DECIDE \<and> requests = 3 \<and> replies = 3
          \<and> repositionAttempts s' = 2 \<and> calculateBin s' = 4)"
proof -
  define es where "es = [seen, none_reply, seen, seen, seen, none_reply, seen, seen, none_reply]"
  define r where "r = until_decide (\<lambda>_. 0) es (runStateMachine (\<lambda>_. 0) seen detecting) 0 0"
  have h: "state detecting = STATE_DETECT" "isObjectPresent seen"
    by (simp_all add: detecting_def seen_def isObjectPresent_def DISTANCE_MIN_def DISTANCE_MAX_def)
  have q: "only_non_detections (\<lambda>_. 0) es (runStateMachine (\<lambda>_. 0) seen detecting)"
    unfolding es_def by (simp add: ev)
  have u: "snd r = (3, 3)" "repositionAttempts (fst r) = 2"
    unfolding r_def es_def by (simp_all add: ev)
  from repositions_bounded [OF h q, folded r_def, THEN conjunct1] u
  have "case r of (s', requests, replies) \<Rightarrow>
          state s' = STATE_DECIDE \<and> requests = 3 \<and> replies = 3
          \<and> repositionAttempts s' = 2 \<and> calculateBin s' = 4"
    by (cases r) (simp add: MAX_REPOSITIONS_def)
  with h q show ?thesis unfolding r_def es_def by blast
qed

subsection \<open>The reply parser\<close>

lemma strchr_notin: "c \<notin> set s \<Longrightarrow> strchr s c = None"
  by (induction s) auto

lemma strchr_split: "c \<notin> set g \<Longrightarrow> strchr (g @ c # r) c = Some (c # r)"
  by (induction g) auto

lemma colons_0: "colons s = 0 \<longleftrightarrow> CHR '':'' \<notin> set s"
  by (induction s) (auto simp add: colons_def)

lemma colons_split:
  "CHR '':'' \<in> set s \<Longrightarrow>
   \<exists>g r. s = g @ CHR '':'' # r \<and> CHR '':'' \<notin> set g \<and> colons s = Suc (colons r)"
proof (induction s)
  case Nil
  then show ?case by simp
next
  case (Cons c s)
  show ?case
  proof (cases "c = CHR '':''")
    case True
    then have "c # s = [] @ CHR '':'' # s \<and> CHR '':'' \<notin> set [] \<and> colons (c # s) = Suc (colons s)"
      by (simp add: colons_def)
    then show ?thesis by blast
  next
    case False
    with Cons obtain g r where "s = g @ CHR '':'' # r" "CHR '':'' \<notin> set g" "colons s = Suc (colons r)"
      by auto
    with False have "c # s = (c # g) @ CHR '':'' # r \<and> CHR '':'' \<notin> set (c # g)
        \<and> colons (c # s) = Suc (colons r)"
      by (simp add: colons_def)
    then show ?thesis by blast
  qed
qed

lemma contains_OK_Cons:
  "contains_OK (c # s) \<longleftrightarrow> take 2 (c # s) = ''OK'' \<or> contains_OK s"
proof
  assume "contains_OK (c # s)"
  then obtain pre post where e: "c # s = pre @ ''OK'' @ post" by (auto simp add: contains_OK_def)
  show "take 2 (c # s) = ''OK'' \<or> contains_OK s"
  proof (cases pre)
    case Nil
    with e show ?thesis by auto
  next
    case (Cons d pre')
    with e have "s = pre' @ ''OK'' @ post" by simp
    then show ?thesis by (auto simp add: contains_OK_def)
  qed
next
  assume "take 2 (c # s) = ''OK'' \<or> contains_OK s"
  then show "contains_OK (c # s)"
  proof
    assume "take 2 (c # s) = ''OK''"
    then have "c # s = [] @ ''OK'' @ drop 2 (c # s)"
      by (metis append_Nil append_take_drop_id)
    then show ?thesis unfolding contains_OK_def by blast
  next
    assume "contains_OK s"
    then obtain pre post where "s = pre @ ''OK'' @ post" by (auto simp add: contains_OK_def)
    then have "c # s = (c # pre) @ ''OK'' @ post" by simp
    then show ?thesis unfolding contains_OK_def by blast
  qed
qed

lemma contains_OK_Nil [simp]: "\<not> contains_OK []"
  by (simp add: contains_OK_def)

lemma strstr_OK_None: "strstr s ''OK'' = None \<longleftrightarrow> \<not> contains_OK s"
  by (induction s) (auto simp add: contains_OK_Cons)

lemma strstr_OK_first:
  "\<not> contains_OK (pre @ ''O'') \<Longrightarrow> strstr (pre @ ''OK'' @ rest) ''OK'' = Some (''OK'' @ rest)"
proof (induction pre)
  case Nil
  then show ?case by simp
next
  case (Cons c pre)
  from Cons.prems have a: "take 2 (c # pre @ ''O'') \<noteq> ''OK''" and b: "\<not> contains_OK (pre @ ''O'')"
    using contains_OK_Cons [of c "pre @ ''O''"] by auto
  from a have "take 2 (c # pre @ ''OK'' @ rest) \<noteq> ''OK''"
    by (cases pre) auto
  with Cons.IH [OF b] show ?case by simp
qed

lemma first_OK_exists:
  "contains_OK s \<Longrightarrow> \<exists>pre rest. s = pre @ ''OK'' @ rest \<and> \<not> contains_OK (pre @ ''O'')"
proof (induction s)
  case Nil
  then show ?case by simp
next
  case (Cons c s)
  show ?case
  proof (cases "take 2 (c # s) = ''OK''")
    case True
    then have "c # s = [] @ ''OK'' @ drop 2 (c # s)"
      by (metis append_Nil append_take_drop_id)
    moreover have "\<not> contains_OK ([] @ ''O'')"
      by (simp add: contains_OK_Cons)
    ultimately show ?thesis by blast
  next
    case False
    with Cons.prems have "contains_OK s" using contains_OK_Cons [of c s] by blast
    with Cons.IH obtain pre rest where p: "s = pre @ ''OK'' @ rest" "\<not> contains_OK (pre @ ''O'')"
      by blast
    from False p(1) have "take 2 (c # pre @ ''O'') \<noteq> ''OK''"
      by (cases pre) auto
    with p have "c # s = (c # pre) @ ''OK'' @ rest \<and> \<not> contains_OK ((c # pre) @ ''O'')"
      using contains_OK_Cons [of c "pre @ ''O''"] by simp
    then show ?thesis by blast
  qed
qed

lemma parse_no_OK:
  "buffer = [] \<or> take 4 buffer = ''NONE'' \<or> take 4 buffer = ''ERR:'' \<or> \<not> contains_OK buffer
   \<Longrightarrow> parseResponse atof buffer c0 f0 = (False, c0, f0)"
  by (auto simp add: parseResponse_def strncmp_eq_def strstr_OK_None [symmetric])

lemma parse_after_OK:
  assumes "buffer \<noteq> []" "take 4 buffer \<noteq> ''NONE''" "take 4 buffer \<noteq> ''ERR:''"
    and "buffer = pre @ ''OK'' @ rest" "\<not> contains_OK (pre @ ''O'')"
  shows "parseResponse atof buffer c0 f0 =
     (case strchr rest (CHR '':'') of
        None \<Rightarrow> (False, c0, f0)
      | Some colonPtr \<Rightarrow>
          (case strchr (drop 1 colonPtr) (CHR '':'') of
             None \<Rightarrow> (False, c0, f0)
           | Some secondColonPtr \<Rightarrow>
               (MIN_CONFIDENCE \<le> atof (drop 1 secondColonPtr),
                take (min 15 (length (drop 1 colonPtr) - length secondColonPtr)) (drop 1 colonPtr),
                atof (drop 1 secondColonPtr))))"
proof -
  from assms(4,5) have "strstr buffer ''OK'' = Some (''OK'' @ rest)"
    using strstr_OK_first [of pre rest] by simp
  with assms(1-3) show ?thesis
    by (auto simp add: parseResponse_def strncmp_eq_def Let_def min_def split: option.splits)
qed

lemma parse_few_colons:
  assumes "buffer \<noteq> []" "take 4 buffer \<noteq> ''NONE''" "take 4 buffer \<noteq> ''ERR:''"
    and "buffer = pre @ ''OK'' @ rest" "\<not> contains_OK (pre @ ''O'')"
    and "colons rest < 2"
  shows "parseResponse atof buffer c0 f0 = (False, c0, f0)"
proof (cases "CHR '':'' \<in> set rest")
  case False
  then show ?thesis by (simp add: parse_after_OK [OF assms(1-5)] strchr_notin)
next
  case True
  from colons_split [OF this] obtain g r where
    r: "rest = g @ CHR '':'' # r" "CHR '':'' \<notin> set g" "colons rest = Suc (colons r)"
    by blast
  with assms(6) have "colons r = 0" by simp
  then have "CHR '':'' \<notin> set r" by (simp add: colons_0)
  with r show ?thesis
    by (simp add: parse_after_OK [OF assms(1-5)] strchr_split strchr_notin)
qed

lemma parse_two_colons:
  assumes "buffer \<noteq> []" "take 4 buffer \<noteq> ''NONE''" "take 4 buffer \<noteq> ''ERR:''"
    and "buffer = pre @ ''OK'' @ rest" "\<not> contains_OK (pre @ ''O'')"
    and "rest = g @ '':'' @ lab @ '':'' @ tail" "CHR '':'' \<notin> set g" "CHR '':'' \<notin> set lab"
  shows "parseResponse atof buffer c0 f0 =
           (MIN_CONFIDENCE \<le> atof tail, take 15 lab, atof tail)"
proof -
  from assms(6,7) have 1: "strchr rest (CHR '':'') = Some (CHR '':'' # lab @ CHR '':'' # tail)"
    using strchr_split [of "CHR '':''" g "lab @ CHR '':'' # tail"] by simp
  from assms(8) have 2: "strchr (lab @ CHR '':'' # tail) (CHR '':'') = Some (CHR '':'' # tail)"
    using strchr_split [of "CHR '':''" lab tail] by simp
  show ?thesis
    by (simp add: parse_after_OK [OF assms(1-5)] 1 2 min_def)
qed

lemma two_colons_exist:
  assumes "2 \<le> colons rest"
  shows "\<exists>g lab tail. rest = g @ '':'' @ lab @ '':'' @ tail \<and> CHR '':'' \<notin> set g
           \<and> CHR '':'' \<notin> set lab"
proof -
  from assms have "CHR '':'' \<in> set rest" using colons_0 [of rest] by auto
  from colons_split [OF this] obtain g r where
    r: "rest = g @ CHR '':'' # r" "CHR '':'' \<notin> set g" "colons rest = Suc (colons r)"
    by blast
  with assms have "CHR '':'' \<in> set r" using colons_0 [of r] by auto
  from colons_split [OF this] obtain lab tail where
    "r = lab @ CHR '':'' # tail" "CHR '':'' \<notin> set lab" by blast
  with r have "rest = g @ '':'' @ lab @ '':'' @ tail \<and> CHR '':'' \<notin> set g
           \<and> CHR '':'' \<notin> set lab" by simp
  then show ?thesis by blast
qed

text \<open>
  Claim C4. \<open>parseResponse\<close> is a function on every buffer (it is defined without
  recursion from \<open>strstr\<close> and \<open>strchr\<close>, which recurse on the buffer), and its result is
  always a pair of a \<open>bool\<close> and the two outputs:
  \<^item> for a buffer that is empty, starts with \<open>NONE\<close>, starts with \<open>ERR:\<close> or contains no
    \<open>OK\<close>, it returns \<open>false\<close> and leaves the outputs alone;
  \<^item> otherwise, with \<open>rest\<close> the text after the first \<open>OK\<close> of the buffer, wherever that
    is: if \<open>rest\<close> has fewer than two colons, it returns \<open>false\<close> and leaves the outputs
    alone; if \<open>rest\<close> is \<open>g:lab:tail\<close> with no colon in \<open>g\<close> and \<open>lab\<close>, the class is the
    first 15 characters of \<open>lab\<close>, the confidence is \<open>atof tail\<close>, and the result is
    \<open>true\<close> exactly when that confidence is at least \<open>MIN_CONFIDENCE = 0.65\<close>;
  \<^item> the cases are exhaustive: a buffer that contains \<open>OK\<close> has a first \<open>OK\<close>, and a text
    with two colons or more has the form \<open>g:lab:tail\<close>.
\<close>

theorem parseResponse_cases:
  "(buffer = [] \<or> take 4 buffer = ''NONE'' \<or> take 4 buffer = ''ERR:'' \<or> \<not> contains_OK buffer
      \<longrightarrow> parseResponse atof buffer c0 f0 = (False, c0, f0))
   \<and> (buffer \<noteq> [] \<and> take 4 buffer \<noteq> ''NONE'' \<and> take 4 buffer \<noteq> ''ERR:''
      \<and> buffer = pre @ ''OK'' @ rest \<and> \<not> contains_OK (pre @ ''O'')
      \<longrightarrow> (colons rest < 2 \<longrightarrow> parseResponse atof buffer c0 f0 = (False, c0, f0))
        \<and> (rest = g @ '':'' @ lab @ '':'' @ tail \<and> CHR '':'' \<notin> set g \<and> CHR '':'' \<notin> set lab
            \<longrightarrow> parseResponse atof buffer c0 f0
                  = (MIN_CONFIDENCE \<le> atof tail, take 15 lab, atof tail)))
   \<and> (contains_OK buffer \<longrightarrow>
        (\<exists>pre rest. buffer = pre @ ''OK'' @ rest \<and> \<not> contains_OK (pre @ ''O'')))
   \<and> (2 \<le> colons rest \<longrightarrow>
        (\<exists>g lab tail. rest = g @ '':'' @ lab @ '':'' @ tail \<and> CHR '':'' \<notin> set g
           \<and> CHR '':'' \<notin> set lab))"
  using parse_no_OK [of buffer atof c0 f0] parse_few_colons [of buffer pre rest atof c0 f0]
    parse_two_colons [of buffer pre rest g lab tail atof c0 f0]
    first_OK_exists [of buffer] two_colons_exist [of rest]
  by blast

text \<open>
  Instances: the reply \<open>xxOK:GLASS3:0.91\<close> of the specification is accepted with label
  \<open>GLASS3\<close>; \<open>NONE\<close> and \<open>xxOK:GLASS3\<close> are not.
\<close>

theorem parseResponse_cases_witness:
  "''xxOK:GLASS3:0.91'' \<noteq> [] \<and> take 4 ''xxOK:GLASS3:0.91'' \<noteq> ''NONE''
   \<and> take 4 ''xxOK:GLASS3:0.91'' \<noteq> ''ERR:''
   \<and> ''xxOK:GLASS3:0.91'' = ''xx'' @ ''OK'' @ '':GLASS3:0.91'' \<and> \<not> contains_OK (''xx'' @ ''O'')
   \<and> '':GLASS3:0.91'' = [] @ '':'' @ ''GLASS3'' @ '':'' @ ''0.91''
   \<and> CHR '':'' \<notin> set [] \<and> CHR '':'' \<notin> set ''GLASS3''
   \<and> parseResponse atof_091 ''xxOK:GLASS3:0.91'' [] 0 = (True, ''GLASS3'', 91 / 100)
   \<and> take 4 ''NONE'' = ''NONE'' \<and> parseResponse atof_091 ''NONE'' [] 0 = (False, [], 0)
   \<and> ''xxOK:GLASS3'' = ''xx'' @ ''OK'' @ '':GLASS3'' \<and> colons '':GLASS3'' < 2
   \<and> parseResponse atof_091 ''xxOK:GLASS3'' [] 0 = (False, [], 0)
   \<and> contains_OK ''xxOK:GLASS3:0.91'' \<and> 2 \<le> colons '':GLASS3:0.91''"
proof -
  have n: "\<not> contains_OK (''xx'' @ ''O'')" by (simp add: contains_OK_Cons)
  have c: "colons '':GLASS3'' < 2" "2 \<le> colons '':GLASS3:0.91''" by (simp_all add: colons_def)
  have k: "contains_OK ''xxOK:GLASS3:0.91''" by (simp add: contains_OK_Cons)
  have a: "(MIN_CONFIDENCE \<le> atof_091 ''0.91'') = True" "atof_091 ''0.91'' = 91 / 100"
    by (simp_all add: atof_091_def MIN_CONFIDENCE_def)
  from parseResponse_cases [of "''xxOK:GLASS3:0.91''" atof_091 "[]" 0 "''xx''" "'':GLASS3:0.91''"
      "[]" "''GLASS3''" "''0.91''"]
    parseResponse_cases [of "''NONE''" atof_091 "[]" 0]
    parseResponse_cases [of "''xxOK:GLASS3''" atof_091 "[]" 0 "''xx''" "'':GLASS3''"]
    n c k a
  show ?thesis by simp
qed

section \<open>Properties of the detection filter\<close>

subsection \<open>Every stage only raises flags\<close>

lemma raised_refl: "raised a a"
  by (simp add: raised_def)

lemma raised_trans: "raised a b \<Longrightarrow> raised b c \<Longrightarrow> raised a c"
  by (auto simp add: raised_def)

lemma raised_suppress: "raised a (suppress a)"
  by (cases "box_suppressed a") (simp_all add: raised_def suppress_def)

lemma raised_unsuppressed: "raised a b \<Longrightarrow> \<not> box_suppressed b \<Longrightarrow> a = b"
  by (auto simp add: raised_def)

lemma raised_list_refl: "list_all2 raised boxes boxes"
  by (simp add: list_all2_refl raised_refl)

lemma raised_list_trans:
  "list_all2 raised xs ys \<Longrightarrow> list_all2 raised ys zs \<Longrightarrow> list_all2 raised xs zs"
  using list_all2_trans [of raised raised raised xs ys zs] raised_trans by blast

lemma raised_update: "list_all2 raised boxes (boxes[j := suppress (boxes ! j)])"
proof -
  have "list_all2 raised (boxes[j := boxes ! j]) (boxes[j := suppress (boxes ! j)])"
    by (intro list_all2_update_cong raised_list_refl raised_suppress)
  then show ?thesis by simp
qed

lemma fold_raised:
  assumes "\<And>j bs. list_all2 raised bs (f j bs)"
  shows "list_all2 raised boxes (fold f js boxes)"
proof (induction js arbitrary: boxes)
  case Nil
  show ?case by (simp add: raised_list_refl)
next
  case (Cons j js)
  from assms [of boxes j] Cons [of "f j boxes"] show ?case
    by (simp add: raised_list_trans)
qed

lemma fold_raised_fst:
  assumes "\<And>j st. list_all2 raised (fst st) (fst (f j st))"
  shows "list_all2 raised (fst st) (fst (fold f js st))"
proof (induction js arbitrary: st)
  case Nil
  show ?case by (simp add: raised_list_refl)
next
  case (Cons j js)
  from assms [of st j] Cons [of "f j st"] show ?case
    by (simp add: raised_list_trans)
qed

lemma filter_step_raised: "raised b (filter_step w h b)"
  by (simp add: filter_step_def Let_def raised_suppress raised_refl)

lemma filterInvalid_raised: "list_all2 raised boxes (filterInvalid w h boxes)"
  by (simp add: filterInvalid_def list_all2_conv_all_nth filter_step_raised)

lemma rc_inner_raised: "list_all2 raised boxes (rc_inner i j boxes)"
  by (simp add: rc_inner_def Let_def raised_update raised_list_refl)

lemma rc_outer_raised: "list_all2 raised boxes (rc_outer i boxes)"
  by (simp add: rc_outer_def raised_list_refl fold_raised rc_inner_raised)

lemma removeContained_raised: "list_all2 raised boxes (removeContained boxes)"
  by (simp add: removeContained_def fold_raised rc_outer_raised)

lemma nms_inner_raised: "list_all2 raised boxes (nms_inner i j boxes)"
  by (simp add: nms_inner_def raised_update raised_list_refl)

lemma nms_outer_raised: "list_all2 raised boxes (nms_outer i boxes)"
  by (simp add: nms_outer_def raised_list_refl fold_raised nms_inner_raised)

lemma kb_inner_raised: "list_all2 raised (fst st) (fst (kb_inner i j st))"
  by (cases st) (simp add: kb_inner_def Let_def raised_update raised_list_refl)

lemma kb_outer_raised: "list_all2 raised boxes (kb_outer i boxes)"
  using fold_raised_fst [of "kb_inner i" "(boxes, False)", OF kb_inner_raised]
  by (simp add: kb_outer_def raised_list_refl)

lemma keepBestPerClass_raised: "list_all2 raised boxes (keepBestPerClass boxes)"
  by (simp add: keepBestPerClass_def fold_raised kb_outer_raised)

text \<open>Sorting permutes the array.\<close>

lemma swap_step_perm:
  "j + 1 < length boxes \<Longrightarrow>
   length (swap_step j boxes) = length boxes \<and> mset (swap_step j boxes) = mset boxes"
  using mset_swap [of "j + 1" boxes j] by (simp add: swap_step_def)

lemma fold_perm:
  assumes "\<And>j bs. j \<in> set js \<Longrightarrow> length bs = n \<Longrightarrow>
             length (f j bs) = n \<and> mset (f j bs) = mset bs"
    and "length boxes = n"
  shows "length (fold f js boxes) = n \<and> mset (fold f js boxes) = mset boxes"
  using assms
proof (induction js arbitrary: boxes)
  case Nil
  then show ?case by simp
next
  case (Cons j js)
  from Cons.prems have s: "length (f j boxes) = n \<and> mset (f j boxes) = mset boxes" by simp
  with Cons.IH [of "f j boxes"] Cons.prems(1) show ?case by simp
qed

lemma bubble_pass_perm:
  "length (bubble_pass i boxes) = length boxes \<and> mset (bubble_pass i boxes) = mset boxes"
  unfolding bubble_pass_def
  by (rule fold_perm [where n = "length boxes"]) (simp_all add: swap_step_perm)

lemma sortByConfidence_perm:
  assumes "boxes \<noteq> []"
  shows "\<exists>s. sortByConfidence boxes = Some s \<and> length s = length boxes \<and> mset s = mset boxes"
proof -
  have "length (fold bubble_pass [0..<length boxes - 1] boxes) = length boxes
      \<and> mset (fold bubble_pass [0..<length boxes - 1] boxes) = mset boxes"
    by (rule fold_perm [where n = "length boxes"]) (simp_all add: bubble_pass_perm)
  with assms show ?thesis by (simp add: sortByConfidence_def)
qed

lemma applyNMS_raised:
  assumes "boxes \<noteq> []"
  shows "\<exists>s out. sortByConfidence boxes = Some s \<and> applyNMS boxes = Some out
           \<and> mset s = mset boxes \<and> list_all2 raised s out"
proof -
  from sortByConfidence_perm [OF assms] obtain s where
    s: "sortByConfidence boxes = Some s" "mset s = mset boxes" by blast
  have "list_all2 raised s (fold nms_outer [0..<length s] s)"
    by (simp add: fold_raised nms_outer_raised)
  with s show ?thesis by (simp add: applyNMS_def)
qed

lemma apply_filters_raised:
  assumes "boxes \<noteq> []"
  shows "\<exists>out ys. apply_filters w h boxes = Some out \<and> mset ys = mset boxes
           \<and> list_all2 raised ys out"
proof -
  let ?r = "removeContained (filterInvalid w h boxes)"
  have r: "list_all2 raised boxes ?r"
    using filterInvalid_raised removeContained_raised by (rule raised_list_trans)
  then have "length ?r = length boxes" by (simp add: list_all2_lengthD)
  with assms have "?r \<noteq> []" by auto
  from applyNMS_raised [OF this] obtain s n where
    n: "applyNMS ?r = Some n" "mset s = mset ?r" "list_all2 raised s n" by blast
  from n(3) keepBestPerClass_raised have k: "list_all2 raised s (keepBestPerClass n)"
    by (rule raised_list_trans)
  have "list_all2 (\<lambda>a b. raised b a) ?r boxes"
    using r by (simp add: list_all2_conv_all_nth)
  from list_all2_reorder_left_invariance [OF this n(2)] obtain ys where
    ys: "list_all2 (\<lambda>a b. raised b a) s ys" "mset ys = mset boxes" by blast
  then have "list_all2 raised ys s" by (simp add: list_all2_conv_all_nth)
  from this k have "list_all2 raised ys (keepBestPerClass n)" by (rule raised_list_trans)
  with ys(2) n(1) assms show ?thesis by (auto simp add: apply_filters_def)
qed

subsection \<open>\<open>sortByConfidence\<close> sorts\<close>

lemma swap_step_length: "length (swap_step j boxes) = length boxes"
  by (simp add: swap_step_def)

lemma swap_step_nth:
  assumes "j + 1 < length boxes" "k < length boxes"
  shows "swap_step j boxes ! k =
     (if box_confidence (boxes ! j) < box_confidence (boxes ! (j + 1))
      then (if k = j then boxes ! (j + 1) else if k = j + 1 then boxes ! j else boxes ! k)
      else boxes ! k)"
  using assms by (simp add: swap_step_def nth_list_update)

lemma fold_swap_pass:
  "m < length boxes \<Longrightarrow> pass_result m boxes (fold swap_step [0..<m] boxes)"
proof (induction m)
  case 0
  then show ?case by (auto simp add: pass_result_def)
next
  case (Suc m)
  let ?r = "fold swap_step [0..<m] boxes"
  from Suc have r: "pass_result m boxes ?r" by simp
  then have len: "length ?r = length boxes" by (simp add: pass_result_def)
  from r have keep: "\<And>k. m < k \<Longrightarrow> k < length boxes \<Longrightarrow> ?r ! k = boxes ! k"
    by (simp add: pass_result_def)
  from r have least: "\<And>k. k \<le> m \<Longrightarrow> box_confidence (?r ! m) \<le> box_confidence (?r ! k)"
    by (simp add: pass_result_def)
  from r have from_pre: "\<And>k. k \<le> m \<Longrightarrow> \<exists>k' \<le> m. ?r ! k = boxes ! k'"
    by (simp add: pass_result_def)
  have step: "fold swap_step [0..<Suc m] boxes = swap_step m ?r" by simp
  have nth: "\<And>k. k < length boxes \<Longrightarrow> swap_step m ?r ! k =
     (if box_confidence (?r ! m) < box_confidence (?r ! (m + 1))
      then (if k = m then ?r ! (m + 1) else if k = m + 1 then ?r ! m else ?r ! k)
      else ?r ! k)"
    using swap_step_nth [of m ?r] Suc.prems len by simp
  have 1: "length (swap_step m ?r) = length boxes"
    by (simp add: swap_step_length len)
  have 2: "\<forall>k. Suc m < k \<and> k < length boxes \<longrightarrow> swap_step m ?r ! k = boxes ! k"
    using nth keep by auto
  have 3: "\<forall>k \<le> Suc m. box_confidence (swap_step m ?r ! Suc m) \<le> box_confidence (swap_step m ?r ! k)"
  proof (intro allI impI)
    fix k assume k: "k \<le> Suc m"
    then have kl: "k < length boxes" using Suc.prems by simp
    have ml: "Suc m < length boxes" "m < length boxes" using Suc.prems by simp_all
    consider "k < m" | "k = m" | "k = Suc m" using k by linarith
    then show "box_confidence (swap_step m ?r ! Suc m) \<le> box_confidence (swap_step m ?r ! k)"
    proof cases
      case 1
      with least [of k] show ?thesis using nth [OF kl] nth [OF ml(1)] by auto
    next
      case 2
      then show ?thesis using nth [OF kl] nth [OF ml(1)] by auto
    next
      case 3
      then show ?thesis by simp
    qed
  qed
  have 4: "\<forall>k \<le> Suc m. \<exists>k' \<le> Suc m. swap_step m ?r ! k = boxes ! k'"
  proof (intro allI impI)
    fix k assume k: "k \<le> Suc m"
    then have kl: "k < length boxes" using Suc.prems by simp
    have top: "?r ! Suc m = boxes ! Suc m" using keep [of "Suc m"] Suc.prems by simp
    have "swap_step m ?r ! k = ?r ! k \<or> swap_step m ?r ! k = ?r ! m
          \<or> swap_step m ?r ! k = ?r ! Suc m"
      using nth [OF kl] by auto
    moreover have "\<exists>k' \<le> Suc m. ?r ! m = boxes ! k'"
      using from_pre [of m] le_Suc_eq by auto
    moreover have "\<exists>k' \<le> Suc m. ?r ! Suc m = boxes ! k'"
      using top by auto
    moreover have "\<exists>k' \<le> Suc m. ?r ! k = boxes ! k'"
    proof (cases "k = Suc m")
      case True
      with top show ?thesis by auto
    next
      case False
      with k have "k \<le> m" by simp
      from from_pre [OF this] show ?thesis using le_Suc_eq by auto
    qed
    ultimately show "\<exists>k' \<le> Suc m. swap_step m ?r ! k = boxes ! k'" by metis
  qed
  from 1 2 3 4 show ?case unfolding pass_result_def step by blast
qed

lemma bubble_pass_tail:
  assumes t: "Suc t < length r" and st: "sorted_tail t r"
  shows "sorted_tail (Suc t) (bubble_pass t r)"
proof -
  define n where "n = length r"
  define m where "m = n - t - 1"
  define r' where "r' = bubble_pass t r"
  from t have m: "m < n" "n - Suc t = m" "n - t = Suc m"
    by (simp_all add: m_def n_def)
  have "pass_result m r r'"
    unfolding bubble_pass_def r'_def m_def n_def
    using m(1) [unfolded m_def n_def] by (rule fold_swap_pass)
  then have len: "length r' = n"
    and keep: "\<And>k. m < k \<Longrightarrow> k < n \<Longrightarrow> r' ! k = r ! k"
    and least: "\<And>k. k \<le> m \<Longrightarrow> box_confidence (r' ! m) \<le> box_confidence (r' ! k)"
    and from_pre: "\<And>k. k \<le> m \<Longrightarrow> \<exists>k' \<le> m. r' ! k = r ! k'"
    by (simp_all add: pass_result_def n_def)
  from st have S: "\<And>p q. Suc m \<le> p \<Longrightarrow> p \<le> q \<Longrightarrow> q < n \<Longrightarrow>
      box_confidence (r ! q) \<le> box_confidence (r ! p)"
    and B: "\<And>p q. p \<le> m \<Longrightarrow> Suc m \<le> q \<Longrightarrow> q < n \<Longrightarrow>
      box_confidence (r ! q) \<le> box_confidence (r ! p)"
    unfolding sorted_tail_def n_def [symmetric] m(3) by (simp_all add: less_Suc_eq_le)
  have above: "box_confidence (r' ! q) \<le> box_confidence (r' ! p)"
    if "p \<le> m" "m < q" "q < n" for p q
  proof -
    from from_pre [OF that(1)] obtain k' where k': "k' \<le> m" "r' ! p = r ! k'" by blast
    from that have "r' ! q = r ! q" by (simp add: keep)
    with k' B [of k' q] that show ?thesis by simp
  qed
  have S': "box_confidence (r' ! q) \<le> box_confidence (r' ! p)"
    if "m \<le> p" "p \<le> q" "q < n" for p q
  proof (cases "p = m")
    case True
    show ?thesis
    proof (cases "q = m")
      case True
      with \<open>p = m\<close> show ?thesis by simp
    next
      case False
      with that True have "m < q" by simp
      with above [of p q] True that show ?thesis by simp
    qed
  next
    case False
    with that have "m < p" "m < q" by simp_all
    with that have "r' ! p = r ! p" "r' ! q = r ! q" by (simp_all add: keep)
    with S [of p q] that \<open>m < p\<close> show ?thesis by simp
  qed
  have B': "box_confidence (r' ! q) \<le> box_confidence (r' ! p)"
    if "p < m" "m \<le> q" "q < n" for p q
  proof (cases "q = m")
    case True
    with least [of p] that show ?thesis by simp
  next
    case False
    with that have "m < q" by simp
    with above [of p q] that show ?thesis by simp
  qed
  have "sorted_tail (Suc t) r'"
    unfolding sorted_tail_def len m(2) using S' B' by blast
  then show ?thesis by (simp add: r'_def)
qed

lemma fold_bubble_tail:
  "t < length boxes \<Longrightarrow>
   length (fold bubble_pass [0..<t] boxes) = length boxes
   \<and> sorted_tail t (fold bubble_pass [0..<t] boxes)"
proof (induction t)
  case 0
  then show ?case by (simp add: sorted_tail_def)
next
  case (Suc t)
  let ?r = "fold bubble_pass [0..<t] boxes"
  from Suc have r: "length ?r = length boxes" "sorted_tail t ?r" by simp_all
  with Suc.prems have "sorted_tail (Suc t) (bubble_pass t ?r)"
    by (intro bubble_pass_tail) simp_all
  with r show ?case by (simp add: bubble_pass_perm)
qed

lemma sortByConfidence_sorted:
  assumes "sortByConfidence boxes = Some s"
  shows "sorted_desc s"
proof -
  from assms have ne: "boxes \<noteq> []" and s: "s = fold bubble_pass [0..<length boxes - 1] boxes"
    by (auto simp add: sortByConfidence_def split: if_splits)
  then have "length boxes - 1 < length boxes" by (cases boxes) simp_all
  from fold_bubble_tail [OF this] s
  have len: "length s = length boxes" and st: "sorted_tail (length boxes - 1) s" by simp_all
  from ne len have one: "length s - (length boxes - 1) = 1" by (cases boxes) simp_all
  from st have S: "\<And>p q. 1 \<le> p \<Longrightarrow> p \<le> q \<Longrightarrow> q < length s \<Longrightarrow>
      box_confidence (s ! q) \<le> box_confidence (s ! p)"
    and B: "\<And>p q. p < 1 \<Longrightarrow> 1 \<le> q \<Longrightarrow> q < length s \<Longrightarrow>
      box_confidence (s ! q) \<le> box_confidence (s ! p)"
    unfolding sorted_tail_def one by blast+
  show ?thesis
    unfolding sorted_desc_def
  proof (intro allI impI)
    fix p q assume pq: "p \<le> q \<and> q < length s"
    show "box_confidence (s ! q) \<le> box_confidence (s ! p)"
    proof (cases "p = 0")
      case True
      show ?thesis
      proof (cases "q = 0")
        case True
        with \<open>p = 0\<close> show ?thesis by simp
      next
        case False
        with True pq B [of p q] show ?thesis by simp
      qed
    next
      case False
      with pq S [of p q] show ?thesis by simp
    qed
  qed
qed

subsection \<open>What the two loops of \<open>applyNMS\<close> compute\<close>

lemma suppress_shape [simp]:
  "sameClass (suppress a) b = sameClass a b" "sameClass a (suppress b) = sameClass a b"
  "overlapping (suppress a) b = overlapping a b" "overlapping a (suppress b) = overlapping a b"
  "box_suppressed (suppress a)" "box_confidence (suppress a) = box_confidence a"
  by (simp_all add: sameClass_def overlapping_def calculateIoU_def distance_def suppress_def
      area_def centerX_def centerY_def Let_def)

lemma nms_inner_fold:
  assumes "i < a" "n \<le> length boxes"
  shows "length (fold (nms_inner i) [a..<n] boxes) = length boxes
    \<and> (\<forall>j < length boxes. fold (nms_inner i) [a..<n] boxes ! j =
          (if a \<le> j \<and> j < n \<and> \<not> box_suppressed (boxes ! j)
              \<and> sameClass (boxes ! i) (boxes ! j) \<and> overlapping (boxes ! i) (boxes ! j)
           then suppress (boxes ! j) else boxes ! j))"
  using assms(2)
proof (induction n)
  case 0
  then show ?case by simp
next
  case (Suc n)
  show ?case
  proof (cases "a \<le> n")
    case False
    then show ?thesis by auto
  next
    case True
    let ?r = "fold (nms_inner i) [a..<n] boxes"
    from Suc have len: "length ?r = length boxes"
      and nth: "\<And>j. j < length boxes \<Longrightarrow> ?r ! j =
          (if a \<le> j \<and> j < n \<and> \<not> box_suppressed (boxes ! j)
              \<and> sameClass (boxes ! i) (boxes ! j) \<and> overlapping (boxes ! i) (boxes ! j)
           then suppress (boxes ! j) else boxes ! j)"
      by simp_all
    from Suc.prems assms(1) True have il: "i < length boxes" "n < length boxes" by simp_all
    from nth [OF il(1)] assms(1) have ri: "?r ! i = boxes ! i" by simp
    from nth [OF il(2)] have rn: "?r ! n = boxes ! n" by simp
    from True have step: "fold (nms_inner i) [a..<Suc n] boxes = nms_inner i n ?r" by simp
    have "nms_inner i n ?r =
        (if \<not> box_suppressed (boxes ! n) \<and> sameClass (boxes ! i) (boxes ! n)
            \<and> overlapping (boxes ! i) (boxes ! n)
         then ?r[n := suppress (boxes ! n)] else ?r)"
      by (simp add: nms_inner_def ri rn)
    with len nth il True show ?thesis
      unfolding step by (auto simp add: nth_list_update less_Suc_eq)
  qed
qed

lemma nms_outer_step:
  assumes k: "k < length s" and r: "nms_result k s out"
  shows "nms_result (Suc k) s (nms_outer k out)"
proof -
  from r have len: "length out = length s"
    and nth: "\<And>j. j < length s \<Longrightarrow> out ! j =
             (if \<not> box_suppressed (s ! j)
                 \<and> (\<exists>i. i < k \<and> i < j \<and> \<not> box_suppressed (out ! i)
                        \<and> sameClass (s ! i) (s ! j) \<and> overlapping (s ! i) (s ! j))
              then suppress (s ! j) else s ! j)"
    by (simp_all add: nms_result_def)
  have shape: "\<And>j. j < length s \<Longrightarrow> out ! j = s ! j \<or> out ! j = suppress (s ! j)"
    using nth by metis
  show ?thesis
  proof (cases "box_suppressed (out ! k)")
    case True
    then have same: "nms_outer k out = out" by (simp add: nms_outer_def)
    have "(\<exists>i. i < Suc k \<and> i < j \<and> \<not> box_suppressed (out ! i) \<and> P i)
        \<longleftrightarrow> (\<exists>i. i < k \<and> i < j \<and> \<not> box_suppressed (out ! i) \<and> P i)" for j P
      using True less_Suc_eq by auto
    with len nth show ?thesis
      unfolding same nms_result_def by simp
  next
    case False
    let ?o = "fold (nms_inner k) [k + 1..<length out] out"
    from False have o: "nms_outer k out = ?o" by (simp add: nms_outer_def)
    from nms_inner_fold [of k "k + 1" "length out" out]
    have olen: "length ?o = length s"
      and onth: "\<And>j. j < length s \<Longrightarrow> ?o ! j =
          (if k + 1 \<le> j \<and> \<not> box_suppressed (out ! j)
              \<and> sameClass (out ! k) (out ! j) \<and> overlapping (out ! k) (out ! j)
           then suppress (out ! j) else out ! j)"
      using len by simp_all
    from False shape [OF k] have ok: "out ! k = s ! k" by auto
    have low: "?o ! i = out ! i" if "i \<le> k" for i
      using onth [of i] that k by simp
    have "?o ! j =
             (if \<not> box_suppressed (s ! j)
                 \<and> (\<exists>i. i < Suc k \<and> i < j \<and> \<not> box_suppressed (?o ! i)
                        \<and> sameClass (s ! i) (s ! j) \<and> overlapping (s ! i) (s ! j))
              then suppress (s ! j) else s ! j)" if j: "j < length s" for j
    proof -
      have ex: "(\<exists>i. i < Suc k \<and> i < j \<and> \<not> box_suppressed (?o ! i)
                        \<and> sameClass (s ! i) (s ! j) \<and> overlapping (s ! i) (s ! j))
        \<longleftrightarrow> (\<exists>i. i < k \<and> i < j \<and> \<not> box_suppressed (out ! i)
                        \<and> sameClass (s ! i) (s ! j) \<and> overlapping (s ! i) (s ! j))
            \<or> (k < j \<and> sameClass (s ! k) (s ! j) \<and> overlapping (s ! k) (s ! j))"
        (is "?L \<longleftrightarrow> ?E \<or> ?K")
      proof
        assume ?L
        then obtain i where i: "i < Suc k" "i < j" "\<not> box_suppressed (?o ! i)"
          "sameClass (s ! i) (s ! j)" "overlapping (s ! i) (s ! j)" by blast
        show "?E \<or> ?K"
        proof (cases "i = k")
          case True
          with i show ?thesis by auto
        next
          case False
          with i have "i < k" by simp
          with i low [of i] show ?thesis by auto
        qed
      next
        assume "?E \<or> ?K"
        then show ?L
        proof
          assume ?E
          then obtain i where i: "i < k" "i < j" "\<not> box_suppressed (out ! i)"
            "sameClass (s ! i) (s ! j)" "overlapping (s ! i) (s ! j)" by blast
          with low [of i] have "i < Suc k \<and> i < j \<and> \<not> box_suppressed (?o ! i)
                        \<and> sameClass (s ! i) (s ! j) \<and> overlapping (s ! i) (s ! j)" by simp
          then show ?L by blast
        next
          assume ?K
          with low [of k] False have "k < Suc k \<and> k < j \<and> \<not> box_suppressed (?o ! k)
                        \<and> sameClass (s ! k) (s ! j) \<and> overlapping (s ! k) (s ! j)" by simp
          then show ?L by blast
        qed
      qed
      show ?thesis
      proof (cases "k < j")
        case False
        then have "j \<le> k" by simp
        with low [of j] nth [OF j] ex False show ?thesis by simp
      next
        case True
        from shape [OF j] have sh: "out ! j = s ! j \<or> out ! j = suppress (s ! j)" .
        from onth [OF j] True have
          oj: "?o ! j = (if \<not> box_suppressed (out ! j) \<and> sameClass (s ! k) (out ! j)
                         \<and> overlapping (s ! k) (out ! j)
                       then suppress (out ! j) else out ! j)"
          by (simp add: ok)
        show ?thesis
        proof (cases "\<not> box_suppressed (s ! j) \<and> ?E")
          case True
          with nth [OF j] have "out ! j = suppress (s ! j)" by simp
          with oj ex True show ?thesis by simp
        next
          case False
          with nth [OF j] have e: "out ! j = s ! j" by auto
          with oj ex False True show ?thesis by auto
        qed
      qed
    qed
    with olen show ?thesis unfolding o nms_result_def by simp
  qed
qed

lemma fold_nms_outer:
  "k \<le> length s \<Longrightarrow> nms_result k s (fold nms_outer [0..<k] s)"
proof (induction k)
  case 0
  then show ?case by (simp add: nms_result_def)
next
  case (Suc k)
  then have "nms_result k s (fold nms_outer [0..<k] s)" by simp
  with Suc.prems have "nms_result (Suc k) s (nms_outer k (fold nms_outer [0..<k] s))"
    by (intro nms_outer_step) simp_all
  then show ?case by simp
qed

lemma applyNMS_result:
  assumes "boxes \<noteq> []"
  shows "\<exists>s out. sortByConfidence boxes = Some s \<and> applyNMS boxes = Some out
      \<and> mset s = mset boxes \<and> sorted_desc s \<and> length out = length s
      \<and> (\<forall>j < length s.
           out ! j =
             (if \<not> box_suppressed (s ! j)
                 \<and> (\<exists>i < j. \<not> box_suppressed (out ! i)
                        \<and> sameClass (s ! i) (s ! j) \<and> overlapping (s ! i) (s ! j))
              then suppress (s ! j) else s ! j))"
proof -
  from sortByConfidence_perm [OF assms] obtain s where
    s: "sortByConfidence boxes = Some s" "mset s = mset boxes" by blast
  let ?out = "fold nms_outer [0..<length s] s"
  have r: "nms_result (length s) s ?out" by (simp add: fold_nms_outer)
  then have len: "length ?out = length s" by (simp add: nms_result_def)
  have "?out ! j =
             (if \<not> box_suppressed (s ! j)
                 \<and> (\<exists>i < j. \<not> box_suppressed (?out ! i)
                        \<and> sameClass (s ! i) (s ! j) \<and> overlapping (s ! i) (s ! j))
              then suppress (s ! j) else s ! j)" if j: "j < length s" for j
  proof -
    have "(\<exists>i. i < length s \<and> i < j \<and> P i) \<longleftrightarrow> (\<exists>i < j. P i)" for P
      using j less_trans by blast
    with r j show ?thesis unfolding nms_result_def by simp
  qed
  with s len sortByConfidence_sorted [OF s(1)] show ?thesis
    by (simp add: applyNMS_def)
qed

subsection \<open>The whole pipeline\<close>

lemma fold_invariant:
  assumes "P x" and "\<And>j y. j \<in> set js \<Longrightarrow> P y \<Longrightarrow> P (f j y)"
  shows "P (fold f js x)"
  using assms by (induction js arbitrary: x) simp_all

lemma raised_confidence: "raised a b \<Longrightarrow> box_confidence b = box_confidence a"
  by (auto simp add: raised_def)

lemma raised_cases: "raised a b \<Longrightarrow> b = a \<or> b = suppress a"
  by (auto simp add: raised_def suppress_def)

lemma raised_member:
  assumes "list_all2 raised xs ys" "b \<in> set ys" "\<not> box_suppressed b"
  shows "b \<in> set xs"
proof -
  from assms(2) obtain k where k: "k < length ys" "ys ! k = b"
    by (auto simp add: in_set_conv_nth)
  with assms(1) have "raised (xs ! k) b" "k < length xs"
    by (auto simp add: list_all2_conv_all_nth)
  with assms(3) raised_unsuppressed [of "xs ! k" b] show ?thesis by auto
qed

text \<open>\<open>removeContained\<close> leaves a box of greatest confidence alone.\<close>

lemma removeContained_top:
  assumes j: "j < length boxes"
    and top: "\<forall>i < length boxes. box_confidence (boxes ! i) \<le> box_confidence (boxes ! j)"
  shows "removeContained boxes ! j = boxes ! j"
proof -
  let ?P = "\<lambda>bs. list_all2 raised boxes bs \<and> bs ! j = boxes ! j"
  have inner: "?P (rc_inner i j' bs)" if "?P bs" "i < length boxes" for i j' bs
  proof -
    from that have r: "list_all2 raised boxes bs" and e: "bs ! j = boxes ! j" by simp_all
    from r that(2) have "box_confidence (bs ! i) = box_confidence (boxes ! i)"
      by (simp add: list_all2_conv_all_nth raised_confidence)
    with top that(2) e have le: "box_confidence (bs ! i) \<le> box_confidence (bs ! j)" by simp
    have "rc_inner i j' bs ! j = bs ! j"
    proof (cases "j' = j")
      case True
      with le show ?thesis by (simp add: rc_inner_def Let_def)
    next
      case False
      then show ?thesis by (simp add: rc_inner_def Let_def)
    qed
    moreover from r rc_inner_raised [of bs i j'] have "list_all2 raised boxes (rc_inner i j' bs)"
      by (rule raised_list_trans)
    ultimately show ?thesis using e by simp
  qed
  have outer: "?P (rc_outer i bs)" if "?P bs" "i < length boxes" for i bs
  proof (cases "box_suppressed (bs ! i)")
    case True
    with that show ?thesis by (simp add: rc_outer_def)
  next
    case False
    have "?P (fold (rc_inner i) [0..<length bs] bs)"
      using that(1) inner [OF _ that(2)] by (rule fold_invariant)
    with False show ?thesis by (simp add: rc_outer_def)
  qed
  have "?P (fold rc_outer [0..<length boxes] boxes)"
  proof (rule fold_invariant)
    show "?P boxes" by (simp add: raised_list_refl)
  next
    fix i y assume "i \<in> set [0..<length boxes]" "?P y"
    then show "?P (rc_outer i y)" using outer [of y i] by simp
  qed
  then show ?thesis by (simp add: removeContained_def)
qed

lemma filter_step_fixed:
  "\<not> box_suppressed (filter_step w h x) \<Longrightarrow> filter_step w h x = x"
  by (simp add: filter_step_def Let_def suppress_def split: if_splits)

lemma single_box_filters:
  assumes "filter_step w h b = b" "\<not> box_suppressed b"
  shows "apply_filters w h [b] = Some [b]"
  using assms
  by (simp add: apply_filters_def filterInvalid_def removeContained_def rc_outer_def
      rc_inner_def applyNMS_def sortByConfidence_def nms_outer_def keepBestPerClass_def
      kb_outer_def upt_rec [of 0] upt_rec [of 1])

lemma suppress_idem [simp]: "suppress (suppress a) = suppress a"
  by (simp add: suppress_def)

lemma suppress_suppressed: "box_suppressed a \<Longrightarrow> suppress a = a"
  by (simp add: suppress_def)

lemma calculateIoU_commute: "calculateIoU a b = calculateIoU b a"
  by (simp add: calculateIoU_def Let_def max.commute min.commute add.commute)

lemma three_boxes:
  assumes conf: "box_confidence a = 9 / 10" "box_confidence b = 8 / 10"
      "box_confidence c = 95 / 100"
    and cls: "sameClass a b" "sameClass b c"
    and fresh: "\<not> box_suppressed a" "\<not> box_suppressed b" "\<not> box_suppressed c"
    and iou: "calculateIoU a b > NMS_IOU_THRESHOLD" "calculateIoU a c > NMS_IOU_THRESHOLD"
      "calculateIoU b c > NMS_IOU_THRESHOLD"
    and valid: "filter_step w h c = c"
  shows "apply_filters w h [a, b, c] = Some [c, suppress a, suppress b]"
proof -
  define f where "f = filterInvalid w h [a, b, c]"
  define r where "r = removeContained f"
  have f: "f = [filter_step w h a, filter_step w h b, c]"
    by (simp add: f_def filterInvalid_def valid)
  then have f_nth: "f ! 0 = filter_step w h a" "f ! Suc 0 = filter_step w h b" "f ! 2 = c"
    and f_len: "length f = 3" by simp_all
  have fr: "list_all2 raised f r" unfolding r_def by (rule removeContained_raised)
  with f_len have len: "length r = 3" using list_all2_lengthD [OF fr] by simp
  have fa: "raised a (f ! 0)" and fb: "raised b (f ! Suc 0)"
    by (simp_all add: f_nth filter_step_raised)
  have r2: "r ! 2 = c"
  proof -
    have "\<forall>i < length f. box_confidence (f ! i) \<le> box_confidence (f ! 2)"
    proof (intro allI impI)
      fix i assume "i < length f"
      then have "i = 0 \<or> i = Suc 0 \<or> i = 2" using f_len by auto
      then show "box_confidence (f ! i) \<le> box_confidence (f ! 2)"
        using raised_confidence [OF fa] raised_confidence [OF fb] conf f_nth(3) by auto
    qed
    with f_len have "removeContained f ! 2 = f ! 2"
      by (intro removeContained_top) simp_all
    then show ?thesis by (simp add: r_def f_nth)
  qed
  from fr f_len have "raised (f ! 0) (r ! 0)" "raised (f ! Suc 0) (r ! Suc 0)"
    by (simp_all add: list_all2_conv_all_nth)
  with fa fb have "raised a (r ! 0)" "raised b (r ! Suc 0)"
    by (auto intro: raised_trans)
  then have r0: "r ! 0 = a \<or> r ! 0 = suppress a" and r1: "r ! Suc 0 = b \<or> r ! Suc 0 = suppress b"
    by (simp_all add: raised_cases)
  from len have shape: "r = [r ! 0, r ! Suc 0, r ! 2]"
    by (auto simp add: list_eq_iff_nth_eq less_Suc_eq numeral_3_eq_3 numeral_2_eq_2)
  have ov: "overlapping c a" "overlapping c b"
    using iou by (simp_all add: overlapping_def calculateIoU_commute [of c])
  have cl: "sameClass c a" "sameClass c b"
    using cls by (simp_all add: sameClass_def)
  have srt: "sortByConfidence [a', b', c] = Some [c, a', b']"
    if "box_confidence a' = 9 / 10" "box_confidence b' = 8 / 10" for a' b'
    using that conf(3)
    by (simp add: sortByConfidence_def bubble_pass_def swap_step_def upt_conv_Cons)
  have sup: "fold nms_outer [0..<length [c, a', b']] [c, a', b'] = [c, suppress a', suppress b']"
    if "sameClass c a'" "sameClass c b'" "overlapping c a'" "overlapping c b'" for a' b'
    using that fresh(3)
    by (cases "box_suppressed a'"; cases "box_suppressed b'")
      (simp_all add: nms_outer_def nms_inner_def upt_conv_Cons suppress_suppressed)
  have nms: "applyNMS [a', b', c] = Some [c, suppress a, suppress b]"
    if a': "a' = a \<or> a' = suppress a" and b': "b' = b \<or> b' = suppress b" for a' b'
  proof -
    from a' b' conf have "box_confidence a' = 9 / 10" "box_confidence b' = 8 / 10" by auto
    then have s1: "sortByConfidence [a', b', c] = Some [c, a', b']" by (rule srt)
    from a' b' ov cl have "sameClass c a'" "sameClass c b'" "overlapping c a'"
      "overlapping c b'" by auto
    then have s2: "fold nms_outer [0..<length [c, a', b']] [c, a', b']
        = [c, suppress a', suppress b']" by (rule sup)
    from a' b' have s3: "suppress a' = suppress a" "suppress b' = suppress b" by auto
    show ?thesis by (simp only: applyNMS_def s1 option.simps s2 s3)
  qed
  have kb: "keepBestPerClass [c, suppress a, suppress b] = [c, suppress a, suppress b]"
    using fresh by (simp add: keepBestPerClass_def kb_outer_def kb_inner_def upt_conv_Cons)
  from nms [OF r0 r1] have "applyNMS r = Some [c, suppress a, suppress b]"
    using shape r2 by simp
  then show ?thesis by (simp add: apply_filters_def kb f_def [symmetric] r_def [symmetric])
qed


lemma sqrt_less_60: "sqrt x < 60 \<longleftrightarrow> x < 3600"
proof -
  have "sqrt 3600 = 60" by (rule real_sqrt_unique) simp_all
  then show ?thesis using real_sqrt_less_iff [of x 3600] by simp
qed

lemmas esp_defs = apply_filters_def filterInvalid_def filter_step_def isValid_def
  removeContained_def rc_outer_def rc_inner_def contained_in_def applyNMS_def
  sortByConfidence_def bubble_pass_def swap_step_def nms_outer_def nms_inner_def
  overlapping_def calculateIoU_def distance_def sameClass_def keepBestPerClass_def
  kb_outer_def kb_inner_def score_def area_def centerX_def centerY_def suppress_def
  MIN_BOX_SIZE_def MIN_CONFIDENCE_def NMS_IOU_THRESHOLD_def SPATIAL_THRESHOLD_def
  first_result_def sqrt_less_60


subsection \<open>Evaluating the examples\<close>

lemma square_filters:
  "apply_filters 96 96 (map from_raw [square_a, square_b, square_c])
     = Some [from_raw square_c, suppress (from_raw square_a), suppress (from_raw square_b)]"
  by (simp add: esp_defs from_raw_def square_a_def square_b_def square_c_def upt_conv_Cons)

lemma square_facts:
  "calculateIoU (from_raw square_a) (from_raw square_b) > NMS_IOU_THRESHOLD"
  "calculateIoU (from_raw square_a) (from_raw square_c) > NMS_IOU_THRESHOLD"
  "calculateIoU (from_raw square_b) (from_raw square_c) > NMS_IOU_THRESHOLD"
  "filter_step 96 96 (from_raw square_c) = from_raw square_c"
  by (simp_all add: esp_defs from_raw_def square_a_def square_b_def square_c_def)

subsection \<open>Non-max suppression\<close>

text \<open>
  Claim C6 as stated fails: the three detections \<open>wide_a\<close>, \<open>wide_b\<close>, \<open>wide_c\<close> are of one
  class, have the confidences 0.9, 0.8 and 0.95 and overlap pairwise with an IoU above
  the threshold, yet the pipeline (for a 96 by 96 input) sends the box with confidence
  0.9: the validity filter has suppressed the 0.95 box for its aspect ratio of 11.
\<close>

theorem nms_scenario_counterexample:
  "bb_value wide_a = 9 / 10 \<and> bb_value wide_b = 8 / 10 \<and> bb_value wide_c = 95 / 100
   \<and> bb_label wide_a = bb_label wide_b \<and> bb_label wide_b = bb_label wide_c
   \<and> calculateIoU (from_raw wide_a) (from_raw wide_b) > NMS_IOU_THRESHOLD
   \<and> calculateIoU (from_raw wide_a) (from_raw wide_c) > NMS_IOU_THRESHOLD
   \<and> calculateIoU (from_raw wide_b) (from_raw wide_c) > NMS_IOU_THRESHOLD
   \<and> apply_filters 96 96 (map from_raw [wide_a, wide_b, wide_c])
       = Some [suppress (from_raw wide_c), from_raw wide_a, suppress (from_raw wide_b)]
   \<and> first_result [suppress (from_raw wide_c), from_raw wide_a, suppress (from_raw wide_b)]
       = Some (from_raw wide_a)
   \<and> runInference 96 96 [wide_a, wide_b, wide_c] = Some (OK ''CAN3'' (9 / 10))
   \<and> from_raw wide_a \<noteq> from_raw wide_c"
  by (simp add: esp_defs from_raw_def wide_a_def wide_b_def wide_c_def upt_conv_Cons
      runInference_def send_result_def)

text \<open>
  Claim C6, amended. For a non-empty array, \<open>applyNMS\<close> first sorts it by descending
  confidence (the sorted array \<open>s\<close> is a permutation of the input) and then, going
  through \<open>s\<close> in this order, suppresses exactly the boxes that were not suppressed and
  have an earlier box of the same class which is itself not suppressed at the end and
  whose IoU with them exceeds 0.2 or whose centre is less than 60 away; every other box
  stays as it is. In particular, for three detections of one class with the confidences
  0.9, 0.8 and 0.95 whose pairwise IoU all exceed the threshold, the 0.95 box is the
  single survivor of the whole pipeline and is the one sent, provided that it passes the
  validity filter of stage 1.
\<close>

theorem nms_sorts_then_suppresses:
  "(boxes \<noteq> [] \<longrightarrow>
      (\<exists>s out. sortByConfidence boxes = Some s \<and> applyNMS boxes = Some out
         \<and> mset s = mset boxes \<and> sorted_desc s \<and> length out = length s
         \<and> (\<forall>j < length s.
              out ! j =
                (if \<not> box_suppressed (s ! j)
                    \<and> (\<exists>i < j. \<not> box_suppressed (out ! i)
                           \<and> sameClass (s ! i) (s ! j) \<and> overlapping (s ! i) (s ! j))
                 then suppress (s ! j) else s ! j))))
   \<and> (bb_value a = 9 / 10 \<and> bb_value b = 8 / 10 \<and> bb_value c = 95 / 100
      \<and> bb_label a = bb_label b \<and> bb_label b = bb_label c
      \<and> calculateIoU (from_raw a) (from_raw b) > NMS_IOU_THRESHOLD
      \<and> calculateIoU (from_raw a) (from_raw c) > NMS_IOU_THRESHOLD
      \<and> calculateIoU (from_raw b) (from_raw c) > NMS_IOU_THRESHOLD
      \<and> filter_step w h (from_raw c) = from_raw c
      \<longrightarrow> apply_filters w h (map from_raw [a, b, c])
            = Some [from_raw c, suppress (from_raw a), suppress (from_raw b)]
        \<and> filter (\<lambda>x. \<not> box_suppressed x)
             [from_raw c, suppress (from_raw a), suppress (from_raw b)] = [from_raw c]
        \<and> runInference w h [a, b, c] = Some (OK (take 31 (bb_label c)) (95 / 100)))"
proof (intro conjI impI)
  assume "boxes \<noteq> []"
  then show "\<exists>s out. sortByConfidence boxes = Some s \<and> applyNMS boxes = Some out
         \<and> mset s = mset boxes \<and> sorted_desc s \<and> length out = length s
         \<and> (\<forall>j < length s.
              out ! j =
                (if \<not> box_suppressed (s ! j)
                    \<and> (\<exists>i < j. \<not> box_suppressed (out ! i)
                           \<and> sameClass (s ! i) (s ! j) \<and> overlapping (s ! i) (s ! j))
                 then suppress (s ! j) else s ! j))"
    by (rule applyNMS_result)
next
  assume h: "bb_value a = 9 / 10 \<and> bb_value b = 8 / 10 \<and> bb_value c = 95 / 100
      \<and> bb_label a = bb_label b \<and> bb_label b = bb_label c
      \<and> calculateIoU (from_raw a) (from_raw b) > NMS_IOU_THRESHOLD
      \<and> calculateIoU (from_raw a) (from_raw c) > NMS_IOU_THRESHOLD
      \<and> calculateIoU (from_raw b) (from_raw c) > NMS_IOU_THRESHOLD
      \<and> filter_step w h (from_raw c) = from_raw c"
  have fresh: "\<not> box_suppressed (from_raw a)" "\<not> box_suppressed (from_raw b)"
    "\<not> box_suppressed (from_raw c)"
    by (simp_all add: from_raw_def)
  have conf: "box_confidence (from_raw a) = 9 / 10" "box_confidence (from_raw b) = 8 / 10"
    "box_confidence (from_raw c) = 95 / 100"
    using h by (simp_all add: from_raw_def)
  have cls: "sameClass (from_raw a) (from_raw b)" "sameClass (from_raw b) (from_raw c)"
    using h by (simp_all add: from_raw_def sameClass_def)
  from h have "apply_filters w h [from_raw a, from_raw b, from_raw c]
      = Some [from_raw c, suppress (from_raw a), suppress (from_raw b)]"
    by (intro three_boxes conf cls fresh) simp_all
  then show f: "apply_filters w h (map from_raw [a, b, c])
            = Some [from_raw c, suppress (from_raw a), suppress (from_raw b)]"
    by simp
  show "filter (\<lambda>x. \<not> box_suppressed x)
             [from_raw c, suppress (from_raw a), suppress (from_raw b)] = [from_raw c]"
    using fresh by simp
  show "runInference w h [a, b, c] = Some (OK (take 31 (bb_label c)) (95 / 100))"
    using f fresh h
    by (simp add: runInference_def send_result_def first_result_def) (simp add: from_raw_def)
qed

text \<open>An instance: the three square detections in a 96 by 96 input.\<close>

theorem nms_sorts_then_suppresses_witness:
  "map from_raw [square_a, square_b, square_c] \<noteq> []
   \<and> (\<exists>s out. sortByConfidence (map from_raw [square_a, square_b, square_c]) = Some s
         \<and> applyNMS (map from_raw [square_a, square_b, square_c]) = Some out
         \<and> sorted_desc s \<and> length out = length s)
   \<and> bb_value square_a = 9 / 10 \<and> bb_value square_b = 8 / 10 \<and> bb_value square_c = 95 / 100
   \<and> bb_label square_a = bb_label square_b \<and> bb_label square_b = bb_label square_c
   \<and> calculateIoU (from_raw square_a) (from_raw square_b) > NMS_IOU_THRESHOLD
   \<and> calculateIoU (from_raw square_a) (from_raw square_c) > NMS_IOU_THRESHOLD
   \<and> calculateIoU (from_raw square_b) (from_raw square_c) > NMS_IOU_THRESHOLD
   \<and> filter_step 96 96 (from_raw square_c) = from_raw square_c
   \<and> runInference 96 96 [square_a, square_b, square_c] = Some (OK ''GLASS3'' (95 / 100))"
proof -
  have ne: "map from_raw [square_a, square_b, square_c] \<noteq> []" by simp
  have v: "bb_value square_a = 9 / 10" "bb_value square_b = 8 / 10"
    "bb_value square_c = 95 / 100" "bb_label square_a = bb_label square_b"
    "bb_label square_b = bb_label square_c" "take 31 (bb_label square_c) = ''GLASS3''"
    by (simp_all add: square_a_def square_b_def square_c_def)
  from nms_sorts_then_suppresses [of "map from_raw [square_a, square_b, square_c]"
      square_a square_b square_c 96 96] ne v square_facts
  show ?thesis by auto
qed

subsection \<open>Filtering the survivor again\<close>

text \<open>
  Claim C7. Let the four filters turn an array into \<open>out\<close>, and let \<open>b\<close> be a box of
  \<open>out\<close> that is not suppressed. Then the four filters applied to the array that
  contains \<open>b\<close> alone return that array: \<open>b\<close> is still not suppressed, none of its fields
  has changed, and it is the box that is sent.
\<close>

theorem filters_idempotent:
  assumes "apply_filters w h boxes = Some out" and "b \<in> set out" and "\<not> box_suppressed b"
  shows "apply_filters w h [b] = Some [b] \<and> first_result [b] = Some b"
proof -
  let ?f = "filterInvalid w h boxes"
  let ?r = "removeContained ?f"
  from assms(1,2) have ne: "boxes \<noteq> []"
    by (auto simp add: apply_filters_def)
  have "length ?r = length boxes"
    using raised_list_trans [OF filterInvalid_raised removeContained_raised, of boxes w h]
    by (simp add: list_all2_lengthD)
  with ne have "?r \<noteq> []" by auto
  from applyNMS_raised [OF this] obtain s n where
    n: "applyNMS ?r = Some n" "mset s = mset ?r" "list_all2 raised s n" by blast
  with assms(1) ne have out: "out = keepBestPerClass n"
    by (simp add: apply_filters_def)
  from keepBestPerClass_raised [of n] assms(2,3) have "b \<in> set n"
    unfolding out by (rule raised_member)
  with n(3) assms(3) have "b \<in> set s" by (intro raised_member [of s n])
  with n(2) have "b \<in> set ?r" by (metis set_mset_mset)
  with removeContained_raised [of ?f] assms(3) have "b \<in> set ?f"
    by (intro raised_member [of ?f ?r])
  then obtain x where "b = filter_step w h x" by (auto simp add: filterInvalid_def)
  with assms(3) have "filter_step w h b = b" using filter_step_fixed [of w h x] by simp
  then have "apply_filters w h [b] = Some [b]" using assms(3) by (rule single_box_filters)
  with assms(3) show ?thesis by (simp add: first_result_def)
qed

text \<open>An instance: the survivor of the three square detections.\<close>

theorem filters_idempotent_witness:
  "apply_filters 96 96 (map from_raw [square_a, square_b, square_c])
     = Some [from_raw square_c, suppress (from_raw square_a), suppress (from_raw square_b)]
   \<and> from_raw square_c
       \<in> set [from_raw square_c, suppress (from_raw square_a), suppress (from_raw square_b)]
   \<and> \<not> box_suppressed (from_raw square_c)
   \<and> apply_filters 96 96 [from_raw square_c] = Some [from_raw square_c]
   \<and> first_result [from_raw square_c] = Some (from_raw square_c)"
proof -
  have m: "from_raw square_c
       \<in> set [from_raw square_c, suppress (from_raw square_a), suppress (from_raw square_b)]"
    by simp
  have u: "\<not> box_suppressed (from_raw square_c)" by (simp add: from_raw_def)
  from filters_idempotent [OF square_filters m u] square_filters m u
  show ?thesis by blast
qed

subsection \<open>Suppression only grows\<close>

text \<open>
  Claim C9. Each of the four stages returns the boxes it was given, each either as it
  was or, if it was not suppressed, with the flag \<open>suppressed\<close> set and every other field
  as it was (the relation \<open>raised\<close>). \<open>filterInvalid\<close>, \<open>removeContained\<close> and
  \<open>keepBestPerClass\<close> keep every box at its position; \<open>applyNMS\<close>, for the non-empty arrays
  it is called with, first permutes the array (\<open>mset s = mset boxes\<close>) and then keeps the
  positions. No stage clears a flag or touches coordinates, label or confidence, and so
  the output of the four stages together is, box by box, a permutation of the input with
  flags raised.
\<close>

theorem suppression_monotone:
  "list_all2 raised boxes (filterInvalid w h boxes)
   \<and> list_all2 raised boxes (removeContained boxes)
   \<and> (boxes \<noteq> [] \<longrightarrow>
        (\<exists>s out. sortByConfidence boxes = Some s \<and> applyNMS boxes = Some out
           \<and> mset s = mset boxes \<and> list_all2 raised s out))
   \<and> list_all2 raised boxes (keepBestPerClass boxes)
   \<and> (boxes \<noteq> [] \<longrightarrow>
        (\<exists>out ys. apply_filters w h boxes = Some out \<and> mset ys = mset boxes
           \<and> list_all2 raised ys out))"
  using filterInvalid_raised removeContained_raised applyNMS_raised keepBestPerClass_raised
    apply_filters_raised
  by blast

text \<open>An instance: the three square detections.\<close>

theorem suppression_monotone_witness:
  "map from_raw [square_a, square_b, square_c] \<noteq> []
   \<and> list_all2 raised (map from_raw [square_a, square_b, square_c])
        (filterInvalid 96 96 (map from_raw [square_a, square_b, square_c]))
   \<and> (\<exists>s out. sortByConfidence (map from_raw [square_a, square_b, square_c]) = Some s
         \<and> applyNMS (map from_raw [square_a, square_b, square_c]) = Some out
         \<and> mset s = mset (map from_raw [square_a, square_b, square_c])
         \<and> list_all2 raised s out)
   \<and> (\<exists>ys. mset ys = mset (map from_raw [square_a, square_b, square_c])
         \<and> list_all2 raised ys
              [from_raw square_c, suppress (from_raw square_a), suppress (from_raw square_b)])"
proof -
  have ne: "map from_raw [square_a, square_b, square_c] \<noteq> []" by simp
  from suppression_monotone [of "map from_raw [square_a, square_b, square_c]" 96 96] ne
    square_filters
  show ?thesis by auto
qed

end
